theory Spec2Isabelle
  imports Main "HOL-Library.Word" "HOL-Library.List_Lexorder"
begin

unbundle bit_operations_syntax

section \<open>Bytes, errors and the standard-library primitives the engine calls\<close>

type_synonym byte = "8 word"
type_synonym bytes = "byte list"

text \<open>
  Every error value the engine can hand back. \<open>EOF\<close> is \<open>io.EOF\<close>, \<open>IOError\<close> any other
  error of the I/O layer or of \<open>strconv\<close>, \<open>Panic\<close> a Go run-time panic (slice bounds, index
  out of range, nil dereference), \<open>InvalidOptions\<close> the error of \<open>checkOptions\<close>.
\<close>

datatype error =
    ErrKeyIsEmpty
  | ErrIndexUpdateFailed
  | ErrKeyNotFound
  | ErrDataFileNotFound
  | ErrDataDirectoryCorrupted
  | ErrExceedMaxBatchNum
  | ErrMergeIsInProgress
  | ErrMergeRatioUnreached
  | ErrNoEnoughSpaceForMerge
  | ErrInvalidCRC
  | EOF
  | IOError
  | Panic
  | InvalidOptions

subsection \<open>encoding/binary: variable-length integers\<close>

text \<open>
  \<open>binary.PutUvarint\<close>: seven bits per byte, least significant group first, the top bit
  of a byte set while more follow. The argument is a \<open>uint64\<close>, held as a natural number.
  The model returns the bytes written; the caller checks that they fit its buffer.
\<close>

function PutUvarint :: "nat \<Rightarrow> bytes" where
  "PutUvarint x =
     (if 0x80 \<le> x then (of_nat x OR 0x80) # PutUvarint (drop_bit 7 x) else [of_nat x])"
  by pat_completeness auto
termination
  by (relation "measure id") (auto simp: drop_bit_eq_div)

declare PutUvarint.simps [simp del]

text \<open>
  \<open>binary.PutVarint\<close>: zig-zag, \<open>ux = uint64(x) << 1\<close>, complemented when \<open>x < 0\<close>.
\<close>

definition PutVarint :: "int \<Rightarrow> bytes" where
  "PutVarint x =
     (let ux = take_bit 64 (push_bit 1 (nat (take_bit 64 x)))
      in PutUvarint (if x < 0 then 2 ^ 64 - 1 - ux else ux))"

text \<open>
  \<open>binary.Uvarint\<close>: the loop over the buffer with index \<open>i\<close>, accumulator \<open>x\<close> and
  shift \<open>s\<close>. It returns the value and the number of bytes read; \<open>(0, 0)\<close> when the buffer
  ends early and \<open>(0, -(i + 1))\<close> on overflow.
\<close>

fun Uvarint_loop :: "bytes \<Rightarrow> nat \<Rightarrow> nat \<Rightarrow> nat \<Rightarrow> nat \<times> int" where
  "Uvarint_loop [] i x s = (0, 0)"
| "Uvarint_loop (b # bs) i x s =
     (if i = 10 then (0, - (int i + 1))
      else if b < 0x80 then
        (if i = 9 \<and> 1 < b then (0, - (int i + 1))
         else (x OR take_bit 64 (push_bit s (unat b)), int i + 1))
      else Uvarint_loop bs (i + 1) (x OR take_bit 64 (push_bit s (unat (b AND 0x7f)))) (s + 7))"

definition Uvarint :: "bytes \<Rightarrow> nat \<times> int" where
  "Uvarint buf = Uvarint_loop buf 0 0 0"

text \<open>\<open>binary.Varint\<close>: undoes the zig-zag; the result is an \<open>int64\<close>.\<close>

definition Varint :: "bytes \<Rightarrow> int \<times> int" where
  "Varint buf =
     (let (ux, n) = Uvarint buf;
          x = int (drop_bit 1 ux)
      in (if odd ux then - x - 1 else x, n))"

text \<open>\<open>binary.LittleEndian.PutUint32\<close> and \<open>binary.LittleEndian.Uint32\<close>.\<close>

definition PutUint32 :: "32 word \<Rightarrow> bytes" where
  "PutUint32 v = [ucast v, ucast (drop_bit 8 v), ucast (drop_bit 16 v), ucast (drop_bit 24 v)]"

definition Uint32 :: "bytes \<Rightarrow> 32 word" where
  "Uint32 b = ucast (b ! 0) OR push_bit 8 (ucast (b ! 1)) OR push_bit 16 (ucast (b ! 2))
                OR push_bit 24 (ucast (b ! 3))"

subsection \<open>hash/crc32: the IEEE checksum\<close>

text \<open>
  The table of \<open>crc32.IEEETable\<close> is built bit by bit from the reflected polynomial
  \<open>0xedb88320\<close>; \<open>crc32.Update\<close> complements the running value (\<open>^crc\<close>, written as
  exclusive or with \<open>0xffffffff\<close>), folds one table lookup per byte, and complements again.
\<close>

definition crc_bit :: "32 word \<Rightarrow> 32 word" where
  "crc_bit c = (if bit c 0 then drop_bit 1 c XOR 0xedb88320 else drop_bit 1 c)"

definition IEEETable :: "byte \<Rightarrow> 32 word" where
  "IEEETable i = (crc_bit ^^ 8) (ucast i)"

definition crc_byte :: "32 word \<Rightarrow> byte \<Rightarrow> 32 word" where
  "crc_byte crc v = IEEETable (ucast crc XOR v) XOR drop_bit 8 crc"

definition Update :: "32 word \<Rightarrow> bytes \<Rightarrow> 32 word" where
  "Update crc p = foldl crc_byte (crc XOR 0xffffffff) p XOR 0xffffffff"

definition ChecksumIEEE :: "bytes \<Rightarrow> 32 word" where
  "ChecksumIEEE p = Update 0 p"

section \<open>The record codec (package data)\<close>

text \<open>
  \<open>LogRecordType\<close> is a byte; the three constants are \<open>iota\<close> values.
\<close>

definition LogRecordNormal :: byte where "LogRecordNormal = 0"
definition LogRecordDeleted :: byte where "LogRecordDeleted = 1"
definition LogRecordTxnFinished :: byte where "LogRecordTxnFinished = 2"

definition maxLogRecordHeaderSize :: int where
  "maxLogRecordHeaderSize = 5 * 2 + 5"

record LogRecord =
  Key :: bytes
  Value :: bytes
  Type :: byte

record logRecordHeader =
  crc :: "32 word"
  recordType :: byte
  keySize :: "32 word"
  valueSize :: "32 word"

text \<open>
  \<open>LogRecordPos\<close>: file id (\<open>uint32\<close>), offset (\<open>int64\<close>) and size (\<open>uint32\<close>).
\<close>

record LogRecordPos =
  Fid :: "32 word"
  Offset :: int
  Size :: "32 word"

text \<open>
  \<open>EncodeLogRecord\<close>. The header buffer has \<open>maxLogRecordHeaderSize\<close> bytes, the two
  sizes are written behind the type byte, and a size that does not fit the rest of the
  buffer makes \<open>PutVarint\<close> index out of range, which is the \<open>Panic\<close> branch. The checksum
  covers everything behind the first four bytes and is stored there little-endian.
\<close>

definition EncodeLogRecord :: "LogRecord \<Rightarrow> error + (bytes \<times> int)" where
  "EncodeLogRecord logRecord =
     (let ks = PutVarint (int (length (Key logRecord)));
          vs = PutVarint (int (length (Value logRecord)))
      in if maxLogRecordHeaderSize - 5 < int (length ks) then Inl Panic
         else if maxLogRecordHeaderSize - 5 - int (length ks) < int (length vs) then Inl Panic
         else
           (let body = Type logRecord # ks @ vs @ Key logRecord @ Value logRecord;
                encodeBytes = PutUint32 (ChecksumIEEE body) @ body
            in Inr (encodeBytes, int (length encodeBytes))))"

text \<open>
  \<open>decodeLogRecordHeader\<close>: \<open>None\<close> is the nil header. Slicing the buffer at an index
  outside it panics.
\<close>

definition decodeLogRecordHeader :: "bytes \<Rightarrow> error + (logRecordHeader option \<times> int)" where
  "decodeLogRecordHeader buffer =
     (if length buffer \<le> 4 then Inr (None, 0)
      else
        (let (ksz, n) = Varint (drop 5 buffer);
             index = 5 + n
         in if index < 0 \<or> int (length buffer) < index then Inl Panic
            else
              (let (vsz, m) = Varint (drop (nat index) buffer);
                   index' = index + m
               in Inr (Some \<lparr>crc = Uint32 (take 4 buffer), recordType = buffer ! 4,
                               keySize = word_of_int ksz, valueSize = word_of_int vsz\<rparr>,
                       index'))))"

text \<open>
  \<open>getLogRecordCRC\<close>: the checksum of the header tail, continued over key and value.
\<close>

definition getLogRecordCRC :: "LogRecord \<Rightarrow> bytes \<Rightarrow> 32 word" where
  "getLogRecordCRC lr header = Update (Update (ChecksumIEEE header) (Key lr)) (Value lr)"

subsection \<open>The I/O manager and the data file\<close>

text \<open>
  A file is the list of its bytes. \<open>readNBytes\<close> allocates \<open>numBytes\<close> bytes (a negative
  length panics) and calls \<open>ReadAt\<close> of the standard file manager, which refuses a negative
  offset and returns \<open>io.EOF\<close> when the file ends before the buffer is full; an empty
  buffer is always read successfully.
\<close>

definition readNBytes :: "bytes \<Rightarrow> int \<Rightarrow> int \<Rightarrow> error + bytes" where
  "readNBytes file numBytes offset =
     (if numBytes < 0 then Inl Panic
      else if offset < 0 then Inl IOError
      else if numBytes = 0 then Inr []
      else if int (length file) - offset < numBytes then Inl EOF
      else Inr (take (nat numBytes) (drop (nat offset) file)))"

text \<open>
  \<open>DataFile.ReadLogRecord\<close> on the content of the file: the record and its total length.
\<close>

definition ReadLogRecord :: "bytes \<Rightarrow> int \<Rightarrow> error + (LogRecord \<times> int)" where
  "ReadLogRecord file offset =
     (let fileSize = int (length file);
          headerBytes = (if fileSize < offset + maxLogRecordHeaderSize
                         then fileSize - offset else maxLogRecordHeaderSize)
      in case readNBytes file headerBytes offset of
           Inl e \<Rightarrow> Inl e
         | Inr headerBuffer \<Rightarrow>
             (case decodeLogRecordHeader headerBuffer of
                Inl e \<Rightarrow> Inl e
              | Inr (None, _) \<Rightarrow> Inl EOF
              | Inr (Some header, headerSize) \<Rightarrow>
                  if crc header = 0 \<and> keySize header = 0 \<and> valueSize header = 0 then Inl EOF
                  else
                    (let keySz = uint (keySize header);
                         valueSz = uint (valueSize header);
                         recordSize = headerSize + keySz + valueSz
                     in case (if 0 < keySz \<or> 0 < valueSz
                              then readNBytes file (keySz + valueSz) (offset + headerSize)
                              else Inr [])
                        of Inl e \<Rightarrow> Inl e
                         | Inr kvBuffer \<Rightarrow>
                             (let logRecord = \<lparr>Key = take (nat keySz) kvBuffer,
                                                Value = drop (nat keySz) kvBuffer,
                                                Type = recordType header\<rparr>
                              in if headerSize < 4 \<or> int (length headerBuffer) < headerSize
                                 then Inl Panic
                                 else if getLogRecordCRC logRecord
                                           (take (nat headerSize - 4) (drop 4 headerBuffer))
                                         \<noteq> crc header
                                 then Inl ErrInvalidCRC
                                 else Inr (logRecord, recordSize)))))"

section \<open>Properties of the codec\<close>

subsection \<open>Variable-length integers round-trip\<close>

lemma byte_low7: "unat ((of_nat v OR 0x80 :: byte) AND 0x7f) = v mod 128"
proof -
  have z: "(0x80 :: byte) AND 0x7f = 0" by simp
  have m: "(0x7f :: byte) = mask 7" by (simp add: mask_eq_exp_minus_1)
  have "(of_nat v OR 0x80 :: byte) AND 0x7f = (of_nat v AND 0x7f) OR (0x80 AND 0x7f)"
    by (rule bit.conj_disj_distrib2)
  also have "\<dots> = of_nat v AND 0x7f" by (simp only: z or.right_neutral)
  also have "\<dots> = take_bit 7 (of_nat v)" by (simp only: m take_bit_eq_mask)
  finally have "unat ((of_nat v OR 0x80 :: byte) AND 0x7f) = unat (take_bit 7 (of_nat v :: byte))"
    by simp
  also have "\<dots> = take_bit 7 (take_bit 8 v)"
    by (simp add: unsigned_take_bit_eq unsigned_of_nat)
  also have "\<dots> = v mod 128" by (simp add: take_bit_eq_mod mod_mod_cancel)
  finally show ?thesis .
qed
lemma nat_or_shift: "x < 2 ^ s \<Longrightarrow> (x::nat) OR push_bit s y = x + y * 2 ^ s"
proof -
  assume a: "x < 2 ^ s"
  have "\<And>n. \<not> bit x n \<or> \<not> bit (push_bit s y) n"
  proof -
    fix n
    show "\<not> bit x n \<or> \<not> bit (push_bit s y) n"
    proof (cases "n < s")
      case True then show ?thesis by (simp add: bit_push_bit_iff)
    next
      case False
      then have "s \<le> n" by simp
      then have "(2::nat) ^ s \<le> 2 ^ n" by (simp add: power_increasing)
      with a have "x < 2 ^ n" by linarith
      then have "\<not> bit x n" by (simp add: bit_iff_odd)
      then show ?thesis by simp
    qed
  qed
  then have "x + push_bit s y = x OR push_bit s y" by (rule disjunctive_add)
  then show ?thesis by (simp add: push_bit_eq_mult)
qed
lemma byte_small: "v < 128 \<Longrightarrow> (of_nat v :: byte) < 0x80 \<and> unat (of_nat v :: byte) = v"
  by (simp add: word_less_nat_alt unat_of_nat)
lemma byte_cont: "\<not> ((of_nat v OR 0x80 :: byte) < 0x80)"
proof -
  have "(0x80 :: byte) \<le> 0x80 OR of_nat v" by (rule le_word_or2)
  then show ?thesis by (simp add: or.commute not_less)
qed
lemma pow_bound_i: "(v::nat) * 2 ^ (7 * i) < 2 ^ 64 \<Longrightarrow> k \<le> v \<Longrightarrow> 0 < k \<Longrightarrow> k * 2 ^ (7 * i) < 2 ^ 64"
  by (meson le_less_trans mult_le_mono1)

lemma idx_le9: assumes "(v::nat) * 2 ^ (7 * i) < 2 ^ 64" "0 < v" shows "i \<le> 9"
proof (rule ccontr)
  assume "\<not> i \<le> 9"
  then have "64 \<le> 7 * i" by simp
  then have "(2::nat) ^ 64 \<le> 2 ^ (7 * i)" by (intro power_increasing) simp_all
  moreover have "(2::nat) ^ (7 * i) \<le> v * 2 ^ (7 * i)" using assms(2) by simp
  ultimately show False using assms(1) by linarith
qed

lemma idx_le8: assumes "(v::nat) * 2 ^ (7 * i) < 2 ^ 64" "128 \<le> v" shows "i \<le> 8"
proof (rule ccontr)
  assume "\<not> i \<le> 8"
  then have "64 \<le> 7 * i + 7" by simp
  then have "(2::nat) ^ 64 \<le> 2 ^ (7 * i + 7)" by (intro power_increasing) simp_all
  moreover have "(2::nat) ^ (7 * i + 7) = 128 * 2 ^ (7 * i)" by (simp add: power_add)
  moreover have "128 * (2::nat) ^ (7 * i) \<le> v * 2 ^ (7 * i)" using assms(2) by simp
  ultimately show False using assms(1) by linarith
qed

lemma last_le1: assumes "(v::nat) * 2 ^ (7 * 9) < 2 ^ 64" shows "v \<le> 1"
  using assms by simp

lemma Uvarint_loop_Put:
  "x < 2 ^ (7 * i) \<Longrightarrow> x + v * 2 ^ (7 * i) < 2 ^ 64 \<Longrightarrow> i = 0 \<or> 0 < v \<Longrightarrow>
   Uvarint_loop (PutUvarint v @ rest) i x (7 * i)
     = (x + v * 2 ^ (7 * i), int i + int (length (PutUvarint v)))"
proof (induction v arbitrary: i x rule: PutUvarint.induct)
  case (1 v)
  have vb: "v * 2 ^ (7 * i) < 2 ^ 64" using "1.prems"(2) by linarith
  show ?case
  proof (cases "0x80 \<le> v")
    case False
    then have small: "v < 128" by simp
    have put: "PutUvarint v = [of_nat v]" using small by (simp add: PutUvarint.simps)
    have i9: "i \<le> 9" using "1.prems"(3) idx_le9 [OF vb] by auto
    have b1: "i = 9 \<Longrightarrow> \<not> 1 < (of_nat v :: byte)"
    proof -
      assume "i = 9"
      with vb have "v \<le> 1" by simp
      then have "v = 0 \<or> v = 1" by linarith
      then show ?thesis by auto
    qed
    have tb: "take_bit 64 (push_bit (7 * i) v) = push_bit (7 * i) v"
      using vb by (simp add: take_bit_nat_eq_self_iff push_bit_eq_mult)
    show ?thesis
      using small i9 b1 byte_small [OF small] "1.prems"(1)
      by (simp add: put tb nat_or_shift)
  next
    case True
    have put: "PutUvarint v = (of_nat v OR 0x80) # PutUvarint (v div 128)"
      using True by (subst PutUvarint.simps) (simp add: drop_bit_eq_div)
    have i8: "i \<le> 8" using idx_le8 [OF vb] True by simp
    let ?x' = "x + (v mod 128) * 2 ^ (7 * i)"
    have lowb: "(v mod 128) * 2 ^ (7 * i) < 2 ^ 64"
    proof -
      have "(v mod 128) * 2 ^ (7 * i) \<le> v * 2 ^ (7 * i)" by (simp add: mult_le_mono1)
      then show ?thesis using vb by linarith
    qed
    have tb: "take_bit 64 (push_bit (7 * i) (v mod 128)) = push_bit (7 * i) (v mod 128)"
      using lowb by (simp add: take_bit_nat_eq_self_iff push_bit_eq_mult)
    have acc: "x OR take_bit 64 (push_bit (7 * i) (unat ((of_nat v OR 0x80 :: byte) AND 0x7f))) = ?x'"
      using "1.prems"(1) by (simp add: byte_low7 tb nat_or_shift)
    have p7: "(2::nat) ^ (7 * Suc i) = 128 * 2 ^ (7 * i)" by (simp add: power_add)
    have x'b: "?x' < 2 ^ (7 * Suc i)"
    proof -
      have "(v mod 128) * 2 ^ (7 * i) \<le> 127 * 2 ^ (7 * i)"
        by (rule mult_le_mono1) simp
      then have "?x' < 128 * 2 ^ (7 * i)" using "1.prems"(1) by linarith
      then show ?thesis by (simp only: p7)
    qed
    have split: "v = (v div 128) * 128 + v mod 128" by simp
    have total: "?x' + (v div 128) * 2 ^ (7 * Suc i) = x + v * 2 ^ (7 * i)"
    proof -
      define P where "P = (2::nat) ^ (7 * i)"
      have "v * P = ((v div 128) * 128 + v mod 128) * P" by simp
      also have "\<dots> = (v div 128) * (128 * P) + (v mod 128) * P"
        by (simp only: add_mult_distrib mult.assoc)
      finally have "(v div 128) * (128 * P) + (v mod 128) * P = v * P" by simp
      then show ?thesis unfolding p7 P_def by linarith
    qed
    have pos: "0 < v div 128" using True by (simp add: div_greater_zero_iff)
    have ih: "Uvarint_loop (PutUvarint (v div 128) @ rest) (Suc i) ?x' (7 * Suc i)
                = (?x' + (v div 128) * 2 ^ (7 * Suc i), int (Suc i) + int (length (PutUvarint (v div 128))))"
      using "1.IH" [OF True, of ?x' "Suc i"] x'b total "1.prems"(2) pos
      by (simp add: drop_bit_eq_div)
    have s7: "7 * i + 7 = 7 * Suc i" by simp
    show ?thesis
      using i8 byte_cont [of v]
      by (simp add: put acc ih total s7 del: mult_Suc_right)
  qed
qed
lemma Uvarint_PutUvarint:
  "v < 2 ^ 64 \<Longrightarrow> Uvarint (PutUvarint v @ rest) = (v, int (length (PutUvarint v)))"
  using Uvarint_loop_Put [of 0 0 v rest] by (simp add: Uvarint_def)

lemma length_PutUvarint_pos: "0 < length (PutUvarint v)"
  by (subst PutUvarint.simps) simp

lemma length_PutUvarint_le: "v < 2 ^ (7 * Suc k) \<Longrightarrow> length (PutUvarint v) \<le> Suc k"
proof (induction k arbitrary: v)
  case 0
  then have "v < 128" by simp
  then show ?case by (subst PutUvarint.simps) simp
next
  case (Suc k)
  show ?case
  proof (cases "0x80 \<le> v")
    case False
    then show ?thesis by (subst PutUvarint.simps) simp
  next
    case True
    have "(2::nat) ^ (7 * Suc (Suc k)) = 128 * 2 ^ (7 * Suc k)" by (simp add: power_add)
    with Suc.prems have "v div 128 < 2 ^ (7 * Suc k)" by (simp add: less_mult_imp_div_less mult.commute)
    then have "length (PutUvarint (v div 128)) \<le> Suc k" by (rule Suc.IH)
    then show ?thesis using True by (subst PutUvarint.simps) (simp add: drop_bit_eq_div)
  qed
qed

lemma zz_bound: "0 \<le> n \<Longrightarrow> n < 2 ^ 63 \<Longrightarrow> 2 * nat n < 2 ^ 64"
proof -
  assume "0 \<le> n" "n < 2 ^ 63"
  then have "nat n < 2 ^ 63" by (simp add: nat_less_iff)
  then show ?thesis by simp
qed

lemma PutVarint_nonneg:
  assumes "0 \<le> n" "n < 2 ^ 63"
  shows "PutVarint n = PutUvarint (2 * nat n)"
proof -
  have a: "take_bit 64 n = n"
    using assms by (simp add: take_bit_int_eq_self_iff) 
  have "2 * nat n < 2 ^ 64" using assms by (rule zz_bound)
  then have b: "take_bit 64 (2 * nat n) = 2 * nat n"
    by (simp add: take_bit_nat_eq_self_iff)
  have c: "push_bit 1 (nat n) = 2 * nat n" by (simp add: push_bit_eq_mult)
  show ?thesis using assms(1) by (simp only: PutVarint_def a b c Let_def) simp
qed

lemma Varint_PutVarint:
  assumes "0 \<le> n" "n < 2 ^ 63"
  shows "Varint (PutVarint n @ rest) = (n, int (length (PutVarint n)))"
proof -
  have "2 * nat n < 2 ^ 64" using assms by (rule zz_bound)
  then have "Uvarint (PutUvarint (2 * nat n) @ rest) = (2 * nat n, int (length (PutUvarint (2 * nat n))))"
    by (rule Uvarint_PutUvarint)
  then show ?thesis
    using assms(1) by (simp add: Varint_def PutVarint_nonneg [OF assms] drop_bit_eq_div)
qed

lemma length_PutVarint_size:
  assumes "n < 2 ^ 32"
  shows "length (PutVarint (int n)) \<le> 5" and "0 < length (PutVarint (int n))"
proof -
  have p: "PutVarint (int n) = PutUvarint (2 * n)"
    using assms PutVarint_nonneg [of "int n"] by simp
  have "2 * n < 2 ^ (7 * Suc 4)" using assms by simp
  then show "length (PutVarint (int n)) \<le> 5" unfolding p using length_PutUvarint_le [of "2 * n" 4] by simp
  show "0 < length (PutVarint (int n))" unfolding p by (rule length_PutUvarint_pos)
qed

subsection \<open>Checksum and fixed-width helpers\<close>

lemma xor_ff_cancel: "(x XOR 0xffffffff) XOR 0xffffffff = (x :: 32 word)"
  by (simp add: xor.assoc)

lemma Update_append: "Update (Update c a) b = Update c (a @ b)"
  by (simp add: Update_def xor_ff_cancel)

lemma getLogRecordCRC_eq:
  "getLogRecordCRC lr header = ChecksumIEEE (header @ Key lr @ Value lr)"
  by (simp add: getLogRecordCRC_def ChecksumIEEE_def Update_append)

lemma Uint32_PutUint32: "Uint32 (PutUint32 c @ rest) = c"
proof -
  let ?e = "(ucast (ucast c :: byte) :: 32 word) OR push_bit 8 (ucast (ucast (drop_bit 8 c) :: byte))
            OR push_bit 16 (ucast (ucast (drop_bit 16 c) :: byte))
            OR push_bit 24 (ucast (ucast (drop_bit 24 c) :: byte))"
  have "Uint32 (PutUint32 c @ rest) = ?e"
    by (simp add: Uint32_def PutUint32_def)
  also have "?e = c"
  proof (rule bit_eqI)
    fix n
    assume "possible_bit TYPE(32 word) n"
    then have n: "n < 32" by simp
    consider "n < 8" | "8 \<le> n" "n < 16" | "16 \<le> n" "n < 24" | "24 \<le> n" by linarith
    then show "bit ?e n = bit c n"
      using n by cases (auto simp: bit_simps)
  qed
  finally show ?thesis .
qed

subsection \<open>Reading back an encoded record\<close>

lemma EncodeLogRecord_ok:
  assumes "length (Key r) < 2 ^ 32" "length (Value r) < 2 ^ 32"
  shows "EncodeLogRecord r =
           Inr (PutUint32 (ChecksumIEEE (Type r # PutVarint (int (length (Key r)))
                   @ PutVarint (int (length (Value r))) @ Key r @ Value r))
                @ Type r # PutVarint (int (length (Key r)))
                   @ PutVarint (int (length (Value r))) @ Key r @ Value r,
                5 + int (length (PutVarint (int (length (Key r)))))
                  + int (length (PutVarint (int (length (Value r)))))
                  + int (length (Key r)) + int (length (Value r)))"
  using length_PutVarint_size [OF assms(1)] length_PutVarint_size [OF assms(2)]
  by (simp add: EncodeLogRecord_def maxLogRecordHeaderSize_def Let_def PutUint32_def)

lemma decodeLogRecordHeader_frame:
  assumes cb: "length cb = 4" and k: "k < 2 ^ 32" and v: "v < 2 ^ 32"
  shows "decodeLogRecordHeader (cb @ t # PutVarint (int k) @ PutVarint (int v) @ rest)
           = Inr (Some \<lparr>crc = Uint32 cb, recordType = t, keySize = of_nat k, valueSize = of_nat v\<rparr>,
                  5 + int (length (PutVarint (int k))) + int (length (PutVarint (int v))))"
proof -
  let ?ks = "PutVarint (int k)" and ?vs = "PutVarint (int v)"
  let ?buf = "cb @ t # ?ks @ ?vs @ rest"
  note l4 = cb
  have kb: "(0::int) \<le> int k" "int k < 2 ^ 63" using k by simp_all
  have vb: "(0::int) \<le> int v" "int v < 2 ^ 63" using v by simp_all
  have d5: "drop 5 ?buf = ?ks @ ?vs @ rest" by (simp add: l4)
  have vk: "Varint (drop 5 ?buf) = (int k, int (length ?ks))"
    unfolding d5 by (rule Varint_PutVarint [OF kb])
  have dk: "drop (nat (5 + int (length ?ks))) ?buf = ?vs @ rest"
    by (simp add: l4 nat_add_distrib)
  have vv: "Varint (?vs @ rest) = (int v, int (length ?vs))"
    by (rule Varint_PutVarint [OF vb])
  have t4: "take 4 ?buf = cb" by (simp add: l4)
  have b4: "?buf ! 4 = t" using l4 by (simp add: nth_append)
  have len: "\<not> length ?buf \<le> 4" by (simp add: l4)
  have bound: "\<not> (5 + int (length ?ks) < 0 \<or> int (length ?buf) < 5 + int (length ?ks))"
    by (simp add: l4)
  show ?thesis
    unfolding decodeLogRecordHeader_def
    by (simp only: len if_False vk Let_def prod.case bound dk vv t4 b4) simp
qed

lemma word32_of_nat_uint: "k < 2 ^ 32 \<Longrightarrow> uint (of_nat k :: 32 word) = int k"
proof -
  assume "k < 2 ^ 32"
  then have "unat (of_nat k :: 32 word) = k" by (simp add: unat_of_nat)
  then show ?thesis by (simp add: uint_nat)
qed

lemma word32_of_nat_zero: "k < 2 ^ 32 \<Longrightarrow> (of_nat k :: 32 word) = 0 \<longleftrightarrow> k = 0"
proof
  assume k: "k < 2 ^ 32" and z: "(of_nat k :: 32 word) = 0"
  have "uint (of_nat k :: 32 word) = int k" using k by (rule word32_of_nat_uint)
  with z show "k = 0" by simp
next
  assume "k = 0" then show "(of_nat k :: 32 word) = 0" by simp
qed

lemma readNBytes_inside:
  assumes "0 < length xs"
  shows "readNBytes (pre @ xs @ post) (int (length xs)) (int (length pre)) = Inr xs"
  using assms by (simp add: readNBytes_def)

lemma ReadLogRecord_frame:
  assumes cb: "length cb = 4"
    and kb: "length key < 2 ^ 32" and vb: "length val < 2 ^ 32"
    and noeof: "\<not> (Uint32 cb = 0 \<and> key = [] \<and> val = [])"
  shows "ReadLogRecord
           (pre @ (cb @ t # PutVarint (int (length key)) @ PutVarint (int (length val)) @ key @ val) @ post)
           (int (length pre))
         = (if ChecksumIEEE (t # PutVarint (int (length key)) @ PutVarint (int (length val)) @ key @ val)
                 \<noteq> Uint32 cb
            then Inl ErrInvalidCRC
            else Inr (\<lparr>Key = key, Value = val, Type = t\<rparr>,
                      5 + int (length (PutVarint (int (length key))))
                        + int (length (PutVarint (int (length val))))
                        + int (length key) + int (length val)))"
proof -
  let ?k = "length key" and ?v = "length val"
  let ?ks = "PutVarint (int ?k)" and ?vs = "PutVarint (int ?v)"
  let ?body = "t # ?ks @ ?vs @ key @ val"
  let ?hs = "5 + length ?ks + length ?vs"
  define enc where "enc = cb @ ?body"
  note l4 = cb
  have lenc: "length enc = ?hs + ?k + ?v" by (simp add: enc_def l4)
  have ksl: "length ?ks \<le> 5" "0 < length ?ks" using length_PutVarint_size [OF kb] by simp_all
  have vsl: "length ?vs \<le> 5" "0 < length ?vs" using length_PutVarint_size [OF vb] by simp_all
  define fl where "fl = pre @ enc @ post"
  define hb where "hb = (if int (length fl) < int (length pre) + maxLogRecordHeaderSize
                         then int (length fl) - int (length pre) else maxLogRecordHeaderSize)"
  have hb_ge: "int ?hs \<le> hb" and hb_le: "hb \<le> int (length enc) + int (length post)"
    using ksl vsl by (auto simp: hb_def fl_def maxLogRecordHeaderSize_def lenc)
  have hb_pos: "0 < hb" using hb_ge by linarith
  define tl where "tl = take (nat hb - ?hs) (key @ val @ post)"
  have hdr: "readNBytes fl hb (int (length pre)) = Inr (cb @ t # ?ks @ ?vs @ tl)"
  proof -
    have "take (nat hb) (enc @ post) = cb @ t # ?ks @ ?vs @ tl"
    proof -
      define A where "A = cb @ t # ?ks @ ?vs"
      define B where "B = key @ val @ post"
      have ab: "enc @ post = A @ B" by (simp add: enc_def A_def B_def)
      have la: "length A = ?hs" by (simp add: l4 A_def)
      have "length A \<le> nat hb" using hb_ge la by linarith
      then have "take (nat hb) (A @ B) = A @ take (nat hb - length A) B" by simp
      then show ?thesis unfolding ab la by (simp add: A_def B_def tl_def)
    qed
    then show ?thesis
      using hb_pos hb_le by (simp add: readNBytes_def fl_def)
  qed
  have dec: "decodeLogRecordHeader (cb @ t # ?ks @ ?vs @ tl)
               = Inr (Some \<lparr>crc = Uint32 cb, recordType = t, keySize = of_nat ?k, valueSize = of_nat ?v\<rparr>,
                      5 + int (length ?ks) + int (length ?vs))"
    by (rule decodeLogRecordHeader_frame [OF cb kb vb])
  have uk: "uint (of_nat ?k :: 32 word) = int ?k"
    using word32_of_nat_uint [OF kb] .
  have uv: "uint (of_nat ?v :: 32 word) = int ?v"
    using word32_of_nat_uint [OF vb] .
  have zk: "(of_nat ?k :: 32 word) = 0 \<longleftrightarrow> key = []"
    using word32_of_nat_zero [OF kb] by simp
  have zv: "(of_nat ?v :: 32 word) = 0 \<longleftrightarrow> val = []"
    using word32_of_nat_zero [OF vb] by simp
  have noeof': "\<not> (Uint32 cb = 0 \<and> (of_nat ?k :: 32 word) = 0 \<and> (of_nat ?v :: 32 word) = 0)"
    using noeof by (simp add: zk zv)
  have kv: "(if 0 < int ?k \<or> 0 < int ?v
             then readNBytes fl (int ?k + int ?v) (int (length pre) + (5 + int (length ?ks) + int (length ?vs)))
             else Inr []) = Inr (key @ val)"
  proof (cases "0 < ?k \<or> 0 < ?v")
    case False
    then show ?thesis by simp
  next
    case True
    have f: "fl = (pre @ cb @ t # ?ks @ ?vs) @ (key @ val) @ post"
      by (simp add: fl_def enc_def)
    have l: "int (length pre) + (5 + int (length ?ks) + int (length ?vs))
               = int (length (pre @ cb @ t # ?ks @ ?vs))"
      by (simp add: l4)
    have "readNBytes fl (int (length (key @ val))) (int (length (pre @ cb @ t # ?ks @ ?vs)))
            = Inr (key @ val)"
      unfolding f by (rule readNBytes_inside) (use True in simp)
    then show ?thesis using True by (simp add: l)
  qed
  have crcok: "getLogRecordCRC \<lparr>Key = key, Value = val, Type = t\<rparr>
                 (take (nat (5 + int (length ?ks) + int (length ?vs)) - 4)
                    (drop 4 (cb @ t # ?ks @ ?vs @ tl))) = ChecksumIEEE ?body"
  proof -
    have "nat (5 + int (length ?ks) + int (length ?vs)) - 4 = Suc (length ?ks + length ?vs)"
      by simp
    then show ?thesis by (simp add: getLogRecordCRC_eq l4)
  qed
  have lenhdr: "\<not> (5 + int (length ?ks) + int (length ?vs) < 4
                  \<or> int (length (cb @ t # ?ks @ ?vs @ tl)) < 5 + int (length ?ks) + int (length ?vs))"
    by (simp add: l4)
  have tk: "take (nat (int ?k)) (key @ val) = key"
    and dk: "drop (nat (int ?k)) (key @ val) = val" by simp_all
  show ?thesis
    unfolding ReadLogRecord_def enc_def [symmetric] fl_def [symmetric] Let_def hb_def [symmetric]
    by (simp only: hdr sum.case dec prod.case option.case logRecordHeader.simps noeof' if_False
          uk uv kv tk dk crcok lenhdr not_False_eq_True simp_thms if_True)
qed

lemma ReadLogRecord_encoded:
  assumes kb: "length (Key r) < 2 ^ 32" and vb: "length (Value r) < 2 ^ 32"
    and enc: "EncodeLogRecord r = Inr (enc, n)"
    and nz: "ChecksumIEEE (drop 4 enc) \<noteq> 0 \<or> Key r \<noteq> [] \<or> Value r \<noteq> []"
  shows "ReadLogRecord (pre @ enc @ post) (int (length pre)) = Inr (r, n)"
proof -
  let ?body = "Type r # PutVarint (int (length (Key r))) @ PutVarint (int (length (Value r))) @ Key r @ Value r"
  let ?c = "ChecksumIEEE ?body"
  have l4: "length (PutUint32 ?c) = 4" by (simp add: PutUint32_def)
  have e: "enc = PutUint32 ?c @ ?body"
    and n: "n = 5 + int (length (PutVarint (int (length (Key r)))))
                  + int (length (PutVarint (int (length (Value r)))))
                  + int (length (Key r)) + int (length (Value r))"
    using enc EncodeLogRecord_ok [OF kb vb] by simp_all
  have u: "Uint32 (PutUint32 ?c) = ?c" using Uint32_PutUint32 [of ?c "[]"] by simp
  have d4: "drop 4 enc = ?body" by (simp add: e l4)
  have noeof: "\<not> (Uint32 (PutUint32 ?c) = 0 \<and> Key r = [] \<and> Value r = [])"
    using nz by (simp add: u d4)
  have req: "\<lparr>Key = Key r, Value = Value r, Type = Type r\<rparr> = r" by simp
  show ?thesis
    using ReadLogRecord_frame [OF l4 kb vb noeof, of pre "Type r" post]
    by (simp only: u e n req simp_thms if_False)
qed

subsection \<open>Algebra of the checksum\<close>

lemma crc_bit8: "(crc_bit ^^ 8) x = crc_bit (crc_bit (crc_bit (crc_bit (crc_bit (crc_bit (crc_bit (crc_bit x)))))))"
  by (simp add: eval_nat_numeral)

lemma crc_bit_numeral:
  "crc_bit (numeral k) = (if bit (numeral k :: 32 word) 0 then drop_bit 1 (numeral k) XOR 0xedb88320
                          else drop_bit 1 (numeral k))"
  "crc_bit 0 = 0"
  "crc_bit 1 = 0xedb88320"
  by (simp_all add: crc_bit_def)

lemmas crc_eval = ChecksumIEEE_def Update_def crc_byte_def IEEETable_def crc_bit8 crc_bit_numeral

lemma crc_bit_xor: "crc_bit (a XOR b) = crc_bit a XOR crc_bit b"
  by (simp add: crc_bit_def bit_xor_iff ac_simps)

lemma crc_bit_funpow_xor: "(crc_bit ^^ n) (a XOR b) = (crc_bit ^^ n) a XOR (crc_bit ^^ n) b"
  by (induction n) (simp_all add: crc_bit_xor)

text \<open>The step is undone by shifting back: the top bit of the result tells whether the
  polynomial was folded in.\<close>

definition crc_unbit :: "32 word \<Rightarrow> 32 word" where
  "crc_unbit c = (if bit c 31 then push_bit 1 (c XOR 0xedb88320) OR 1 else push_bit 1 c)"

lemma poly_top: "bit (0xedb88320 :: 32 word) 31"
  by (simp add: bit_iff_odd drop_bit_eq_div [symmetric])

lemma drop1_top: "\<not> bit (drop_bit 1 (c :: 32 word)) 31"
  by (auto simp: bit_simps dest: bit_imp_le_length)

lemma bit_push1_drop1:
  "bit (push_bit 1 (drop_bit 1 (c :: 32 word))) n \<longleftrightarrow> 0 < n \<and> bit c n"
proof (cases "n = 0")
  case True
  then show ?thesis by (simp only: bit_push_bit_iff) simp
next
  case False
  then have n: "1 + (n - 1) = n" "1 \<le> n" by simp_all
  have "bit (push_bit 1 (drop_bit 1 c)) n \<longleftrightarrow> possible_bit TYPE(32 word) n \<and> bit c (1 + (n - 1))"
    using n(2) by (simp only: bit_push_bit_iff bit_drop_bit_eq comp_def) simp
  then show ?thesis using False unfolding n(1) by (auto dest: bit_imp_possible_bit)
qed

lemma crc_unbit_crc_bit: "crc_unbit (crc_bit c) = c"
proof (cases "bit c 0")
  case True
  have t: "bit (drop_bit 1 c XOR 0xedb88320 :: 32 word) 31"
    using poly_top drop1_top [of c] by (simp add: bit_xor_iff)
  have "push_bit 1 (drop_bit 1 c) OR 1 = c"
  proof (rule bit_eqI)
    fix n assume "possible_bit TYPE(32 word) n"
    show "bit (push_bit 1 (drop_bit 1 c) OR 1) n = bit c n"
      using True unfolding bit_or_iff bit_push1_drop1 bit_1_iff by (cases "n = 0") auto
  qed
  moreover have "(drop_bit 1 c XOR 0xedb88320) XOR 0xedb88320 = drop_bit 1 c"
    by (simp add: xor.assoc)
  ultimately show ?thesis using True t by (simp only: crc_unbit_def crc_bit_def if_True)
next
  case False
  have t: "\<not> bit (drop_bit 1 c) 31" by (rule drop1_top)
  have "push_bit 1 (drop_bit 1 c) = c"
  proof (rule bit_eqI)
    fix n assume "possible_bit TYPE(32 word) n"
    show "bit (push_bit 1 (drop_bit 1 c)) n = bit c n"
      using False unfolding bit_push1_drop1 by (cases "n = 0") auto
  qed
  then show ?thesis using False t by (simp only: crc_unbit_def crc_bit_def if_False)
qed

lemma crc_bit_inj: "crc_bit a = crc_bit b \<Longrightarrow> a = b"
  by (metis crc_unbit_crc_bit)

lemma crc_bit_funpow_inj: "(crc_bit ^^ n) a = (crc_bit ^^ n) b \<Longrightarrow> a = b"
  by (induction n) (auto dest: crc_bit_inj)
lemma crc_bit_low_clear:
  "(\<And>j. j < k \<Longrightarrow> \<not> bit z j) \<Longrightarrow> (crc_bit ^^ k) z = drop_bit k z"
proof (induction k)
  case 0
  show ?case by simp
next
  case (Suc k)
  have ih: "(crc_bit ^^ k) z = drop_bit k z" using Suc.prems by (intro Suc.IH) simp
  have "\<not> bit (drop_bit k z) 0" using Suc.prems [of k] by (simp add: bit_drop_bit_eq)
  then have "crc_bit (drop_bit k z) = drop_bit 1 (drop_bit k z)" by (simp add: crc_bit_def)
  then show ?case by (simp add: ih drop_bit_drop_bit)
qed

lemma split_low_byte:
  "(c :: 32 word) XOR ucast (v :: byte) = ucast (ucast c XOR v :: byte) XOR push_bit 8 (drop_bit 8 c)"
proof (rule bit_eqI)
  fix n assume "possible_bit TYPE(32 word) n"
  then have n: "n < 32" by simp
  show "bit (c XOR ucast v) n = bit (ucast (ucast c XOR v :: byte) XOR push_bit 8 (drop_bit 8 c)) n"
    using n by (cases "n < 8") (auto simp: bit_simps)
qed

lemma crc_byte_bitwise: "crc_byte c v = (crc_bit ^^ 8) (c XOR ucast v)"
proof -
  let ?z = "push_bit 8 (drop_bit 8 c) :: 32 word"
  have "\<And>j. j < 8 \<Longrightarrow> \<not> bit ?z j" by (simp add: bit_push_bit_iff)
  then have "(crc_bit ^^ 8) ?z = drop_bit 8 ?z" by (rule crc_bit_low_clear)
  also have "\<dots> = drop_bit 8 c"
    by (rule bit_eqI) (auto simp: bit_simps dest: bit_imp_le_length)
  finally have z: "(crc_bit ^^ 8) ?z = drop_bit 8 c" .
  show ?thesis
    unfolding crc_byte_def IEEETable_def split_low_byte [of c v] crc_bit_funpow_xor z ..
qed

lemma xor_right_cancel: "(a :: 32 word) XOR x = b XOR x \<Longrightarrow> a = b"
proof -
  assume "a XOR x = b XOR x"
  then have "(a XOR x) XOR x = (b XOR x) XOR x" by (simp only:)
  then show ?thesis by (simp add: xor.assoc)
qed

lemma xor_left_cancel: "(x :: 32 word) XOR a = x XOR b \<Longrightarrow> a = b"
  using xor_right_cancel [of a x b] by (simp add: xor.commute)

lemma crc_byte_inj_state: "crc_byte a v = crc_byte b v \<Longrightarrow> a = b"
proof -
  assume "crc_byte a v = crc_byte b v"
  then have "a XOR ucast v = b XOR ucast v"
    unfolding crc_byte_bitwise by (rule crc_bit_funpow_inj)
  then show ?thesis by (rule xor_right_cancel)
qed

lemma crc_byte_inj_byte: "crc_byte a v = crc_byte a w \<Longrightarrow> v = w"
proof -
  assume "crc_byte a v = crc_byte a w"
  then have "a XOR ucast v = a XOR ucast w"
    unfolding crc_byte_bitwise by (rule crc_bit_funpow_inj)
  then have e: "(ucast v :: 32 word) = ucast w" by (rule xor_left_cancel)
  show ?thesis
  proof (rule bit_eqI)
    fix n assume "possible_bit TYPE(byte) n"
    then have n: "n < 8" by simp
    have "bit (ucast v :: 32 word) n = bit (ucast w :: 32 word) n" by (simp only: e)
    then show "bit v n = bit w n" using n by (simp add: bit_ucast_iff)
  qed
qed
lemma foldl_crc_byte_inj: "foldl crc_byte a p = foldl crc_byte b p \<Longrightarrow> a = b"
  by (induction p arbitrary: a b) (auto dest: crc_byte_inj_state)

lemma Update_inj: "Update a p = Update b p \<Longrightarrow> a = b"
proof -
  assume "Update a p = Update b p"
  then have "foldl crc_byte (a XOR 0xffffffff) p = foldl crc_byte (b XOR 0xffffffff) p"
    unfolding Update_def by (rule xor_right_cancel)
  then have "a XOR 0xffffffff = b XOR 0xffffffff" by (rule foldl_crc_byte_inj)
  then show ?thesis by (rule xor_right_cancel)
qed

lemma ChecksumIEEE_byte_change:
  assumes "v \<noteq> w"
  shows "ChecksumIEEE (xs @ v # ys) \<noteq> ChecksumIEEE (xs @ w # ys)"
proof
  assume "ChecksumIEEE (xs @ v # ys) = ChecksumIEEE (xs @ w # ys)"
  then have "foldl crc_byte (foldl crc_byte 0xffffffff xs) (v # ys)
               = foldl crc_byte (foldl crc_byte 0xffffffff xs) (w # ys)"
    unfolding ChecksumIEEE_def Update_def by (simp add: xor_right_cancel)
  then have "crc_byte (foldl crc_byte 0xffffffff xs) v = crc_byte (foldl crc_byte 0xffffffff xs) w"
    by (auto dest: foldl_crc_byte_inj)
  then have "v = w" by (rule crc_byte_inj_byte)
  with assms show False by simp
qed

lemma crc_unbit_numeral:
  "crc_unbit (numeral k) = (if bit (numeral k :: 32 word) 31 then push_bit 1 (numeral k XOR 0xedb88320) OR 1
                            else push_bit 1 (numeral k))"
  by (simp add: crc_unbit_def)

lemma crc_unbit_funpow: "(crc_unbit ^^ n) ((crc_bit ^^ n) c) = c"
proof (induction n arbitrary: c)
  case 0
  show ?case by simp
next
  case (Suc n)
  have "(crc_unbit ^^ Suc n) ((crc_bit ^^ Suc n) c) = (crc_unbit ^^ n) (crc_unbit (crc_bit ((crc_bit ^^ n) c)))"
    by (simp add: funpow_swap1)
  then show ?case by (simp add: crc_unbit_crc_bit Suc.IH)
qed

lemma crc_unbit24: "(crc_unbit ^^ 24) 0xffffffff = 0xa32e2681"
  by (simp add: eval_nat_numeral crc_unbit_numeral)
lemma crc_header_only_nonzero: "ChecksumIEEE [t, 0, 0] \<noteq> 0"
proof
  assume z: "ChecksumIEEE [t, 0, 0] = 0"
  have f: "foldl crc_byte 0xffffffff [t, 0, 0] = (crc_bit ^^ 24) (0xffffffff XOR ucast t)"
  proof -
    have "(crc_bit ^^ 24) (0xffffffff XOR ucast t)
            = (crc_bit ^^ 8) ((crc_bit ^^ 8) ((crc_bit ^^ 8) (0xffffffff XOR ucast t)))"
      using funpow_add [of 8 16 crc_bit] funpow_add [of 8 8 crc_bit] by simp
    then show ?thesis by (simp add: crc_byte_bitwise)
  qed
  have "foldl crc_byte (0 XOR 0xffffffff) [t, 0, 0] XOR 0xffffffff = 0"
    using z unfolding ChecksumIEEE_def Update_def .
  then have "foldl crc_byte 0xffffffff [t, 0, 0] XOR 0xffffffff = 0xffffffff XOR 0xffffffff"
    by simp
  then have "foldl crc_byte 0xffffffff [t, 0, 0] = 0xffffffff" by (rule xor_right_cancel)
  then have "(crc_bit ^^ 24) (0xffffffff XOR ucast t) = 0xffffffff" by (simp only: f)
  then have "(crc_unbit ^^ 24) ((crc_bit ^^ 24) (0xffffffff XOR ucast t)) = (crc_unbit ^^ 24) 0xffffffff"
    by (simp only:)
  then have "0xffffffff XOR (ucast t :: 32 word) = 0xffffffff XOR 0x5cd1d97e"
    by (simp add: crc_unbit_funpow crc_unbit24)
  then have "(ucast t :: 32 word) = 0x5cd1d97e" by (rule xor_left_cancel)
  then have "bit (ucast t :: 32 word) 8 = bit (0x5cd1d97e :: 32 word) 8" by (simp only:)
  moreover have "\<not> bit (ucast t :: 32 word) 8"
    by (auto simp: bit_ucast_iff dest: bit_imp_le_length)
  moreover have "bit (0x5cd1d97e :: 32 word) 8"
    by (simp add: bit_iff_odd drop_bit_eq_div [symmetric])
  ultimately show False by simp
qed

subsection \<open>Layout and round trip of a frame\<close>

lemma PutUvarint_small: "x < 0x80 \<Longrightarrow> PutUvarint x = [of_nat x]"
  by (simp add: PutUvarint.simps)

lemma PutUvarint_big: "0x80 \<le> x \<Longrightarrow> PutUvarint x = (of_nat x OR 0x80) # PutUvarint (x div 128)"
  by (subst PutUvarint.simps) (simp add: drop_bit_eq_div)

lemmas encode_eval = EncodeLogRecord_def PutVarint_def PutUvarint_small PutUvarint_big
  PutUint32_def maxLogRecordHeaderSize_def crc_eval

text \<open>
  Claim C6. For every record whose key and value lengths fit the 32-bit size fields of the
  header, \<open>EncodeLogRecord\<close> succeeds and returns the frame with its length; the first four
  bytes of the frame are the little-endian IEEE checksum of all bytes behind them, which are
  the type byte, the varint key size, the varint value size, the key and the value; and
  \<open>ReadLogRecord\<close>, at the offset where the frame stands in a file, returns the record and
  the length of the frame.
\<close>

theorem EncodeLogRecord_layout_roundtrip:
  assumes "length (Key r) < 2 ^ 32" and "length (Value r) < 2 ^ 32"
  shows "\<exists>enc. EncodeLogRecord r = Inr (enc, int (length enc))
           \<and> take 4 enc = PutUint32 (ChecksumIEEE (drop 4 enc))
           \<and> drop 4 enc = Type r # PutVarint (int (length (Key r)))
                              @ PutVarint (int (length (Value r))) @ Key r @ Value r
           \<and> (\<forall>pre post. ReadLogRecord (pre @ enc @ post) (int (length pre))
                              = Inr (r, int (length enc)))"
proof -
  let ?body = "Type r # PutVarint (int (length (Key r)))
                 @ PutVarint (int (length (Value r))) @ Key r @ Value r"
  let ?enc = "PutUint32 (ChecksumIEEE ?body) @ ?body"
  have l4: "length (PutUint32 (ChecksumIEEE ?body)) = 4" by (simp add: PutUint32_def)
  have e: "EncodeLogRecord r = Inr (?enc, int (length ?enc))"
    using EncodeLogRecord_ok [OF assms] by (simp add: l4)
  have d: "drop 4 ?enc = ?body" and t: "take 4 ?enc = PutUint32 (ChecksumIEEE ?body)"
    using l4 by simp_all
  have nz: "ChecksumIEEE (drop 4 ?enc) \<noteq> 0 \<or> Key r \<noteq> [] \<or> Value r \<noteq> []"
  proof (cases "Key r = [] \<and> Value r = []")
    case True
    then have "?body = [Type r, 0, 0]" by (simp add: PutVarint_def PutUvarint_small)
    then show ?thesis unfolding d using crc_header_only_nonzero [of "Type r"] by simp
  next
    case False
    then show ?thesis by auto
  qed
  have "\<forall>pre post. ReadLogRecord (pre @ ?enc @ post) (int (length pre)) = Inr (r, int (length ?enc))"
    using ReadLogRecord_encoded [OF assms e nz] by blast
  with e d t show ?thesis by (metis (no_types))
qed

theorem EncodeLogRecord_layout_roundtrip_witness:
  "length (Key \<lparr>Key = [101, 110, 103, 105, 110, 101], Value = [98, 101, 116, 97, 100, 98], Type = 0\<rparr>) < 2 ^ 32
   \<and> length (Value \<lparr>Key = [101, 110, 103, 105, 110, 101], Value = [98, 101, 116, 97, 100, 98], Type = 0\<rparr>) < 2 ^ 32
   \<and> ReadLogRecord [77, 26, 80, 17, 0, 12, 12, 101, 110, 103, 105, 110, 101, 98, 101, 116, 97, 100, 98] 0
        = Inr (\<lparr>Key = [101, 110, 103, 105, 110, 101], Value = [98, 101, 116, 97, 100, 98], Type = 0\<rparr>, 19)"
proof -
  let ?r = "\<lparr>Key = [101, 110, 103, 105, 110, 101], Value = [98, 101, 116, 97, 100, 98], Type = 0 :: byte\<rparr>"
  let ?f = "[77, 26, 80, 17, 0, 12, 12, 101, 110, 103, 105, 110, 101, 98, 101, 116, 97, 100, 98] :: bytes"
  have k: "length (Key ?r) < 2 ^ 32" and v: "length (Value ?r) < 2 ^ 32" by simp_all
  have enc: "EncodeLogRecord ?r = Inr (?f, 19)" by (simp add: encode_eval)
  obtain enc' where e: "EncodeLogRecord ?r = Inr (enc', int (length enc'))"
    and rd: "\<forall>pre post. ReadLogRecord (pre @ enc' @ post) (int (length pre)) = Inr (?r, int (length enc'))"
    using EncodeLogRecord_layout_roundtrip [OF k v] by blast
  from e enc have "enc' = ?f" by simp
  with rd have "ReadLogRecord ([] @ ?f @ []) (int (length ([] :: bytes))) = Inr (?r, int (length ?f))"
    by blast
  then show ?thesis using k v by simp
qed

text \<open>
  The size fields of a header are read back as \<open>uint32\<close>. A key of \<open>2 ^ 32\<close> bytes is encoded
  without an error, and no read of the frame gives the record back: a record that
  \<open>ReadLogRecord\<close> returns has a key shorter than \<open>2 ^ 32\<close> bytes.
\<close>

lemma ReadLogRecord_Inr_sizes:
  assumes "ReadLogRecord content offset = Inr (r, n)"
  shows "length (Key r) < 2 ^ 32"
proof -
  define hb where "hb = (if int (length content) < offset + maxLogRecordHeaderSize
                         then int (length content) - offset else maxLogRecordHeaderSize)"
  obtain headerBuffer where hdr: "readNBytes content hb offset = Inr headerBuffer"
    using assms unfolding ReadLogRecord_def Let_def hb_def [symmetric]
    by (cases "readNBytes content hb offset") auto
  obtain header headerSize where dec: "decodeLogRecordHeader headerBuffer = Inr (Some header, headerSize)"
    using assms hdr unfolding ReadLogRecord_def Let_def hb_def [symmetric]
    by (cases "decodeLogRecordHeader headerBuffer") (auto split: option.splits)
  have "\<exists>kvBuffer. Key r = take (nat (uint (keySize header))) kvBuffer"
    using assms hdr dec unfolding ReadLogRecord_def Let_def hb_def [symmetric]
    by (auto split: if_splits sum.splits)
  then obtain kvBuffer where k: "Key r = take (nat (uint (keySize header))) kvBuffer" by blast
  have "unat (keySize header) < 2 ^ 32" using unsigned_less [of "keySize header"] by simp
  then have "nat (uint (keySize header)) < 2 ^ 32" by simp
  then show ?thesis unfolding k by simp
qed

lemma EncodeLogRecord_key_2_32:
  assumes "length (Key r) = 2 ^ 32" and "Value r = []"
  shows "\<exists>enc n. EncodeLogRecord r = Inr (enc, n)"
proof -
  have p: "PutVarint (int (length (Key r))) = PutUvarint (2 * length (Key r))"
    using PutVarint_nonneg [of "int (length (Key r))"] assms(1) by simp
  have "2 * length (Key r) < 2 ^ (7 * Suc 4)" using assms(1) by simp
  then have k: "length (PutVarint (int (length (Key r)))) \<le> 5"
    unfolding p using length_PutUvarint_le [of "2 * length (Key r)" 4] by simp
  have v: "length (PutVarint (int (length (Value r)))) \<le> 5"
    using length_PutVarint_size(1) [of "length (Value r)"] assms(2) by simp
  show ?thesis using k v by (simp add: EncodeLogRecord_def Let_def maxLogRecordHeaderSize_def)
qed

theorem key_of_2_32_bytes_not_read_back:
  "\<exists>enc n. EncodeLogRecord \<lparr>Key = replicate (2 ^ 32) 0, Value = [], Type = LogRecordNormal\<rparr> = Inr (enc, n)
     \<and> ReadLogRecord enc 0
         \<noteq> Inr (\<lparr>Key = replicate (2 ^ 32) 0, Value = [], Type = LogRecordNormal\<rparr>, n)"
proof -
  define r where "r = \<lparr>Key = replicate (2 ^ 32) (0 :: byte), Value = [], Type = LogRecordNormal\<rparr>"
  have kl: "length (Key r) = 2 ^ 32"
    unfolding r_def by (simp only: LogRecord.simps length_replicate)
  have vl: "Value r = []" unfolding r_def by (simp only: LogRecord.simps)
  obtain enc n where e: "EncodeLogRecord r = Inr (enc, n)"
    using EncodeLogRecord_key_2_32 [OF kl vl] by blast
  have "ReadLogRecord enc 0 \<noteq> Inr (r, n)"
  proof
    assume "ReadLogRecord enc 0 = Inr (r, n)"
    from ReadLogRecord_Inr_sizes [OF this] kl show False by simp
  qed
  with e show ?thesis unfolding r_def by blast
qed

subsection \<open>Single-bit corruption of a frame\<close>

lemma PutUint32_Uint32:
  assumes "length cb = 4"
  shows "PutUint32 (Uint32 cb) = cb"
proof -
  obtain a b c d where cb: "cb = [a, b, c, d]"
    using assms by (auto simp: length_Suc_conv eval_nat_numeral)
  let ?w = "(ucast a :: 32 word) OR push_bit 8 (ucast b) OR push_bit 16 (ucast c) OR push_bit 24 (ucast d)"
  have w: "Uint32 [a, b, c, d] = ?w" by (simp add: Uint32_def)
  have 1: "(ucast ?w :: byte) = a"
    by (rule bit_eqI) (auto simp: bit_simps dest: bit_imp_le_length)
  have 2: "(ucast (drop_bit 8 ?w) :: byte) = b"
    by (rule bit_eqI) (auto simp: bit_simps dest: bit_imp_le_length)
  have 3: "(ucast (drop_bit 16 ?w) :: byte) = c"
    by (rule bit_eqI) (auto simp: bit_simps dest: bit_imp_le_length)
  have 4: "(ucast (drop_bit 24 ?w) :: byte) = d"
    by (rule bit_eqI) (auto simp: bit_simps dest: bit_imp_le_length)
  show ?thesis unfolding cb w PutUint32_def 1 2 3 4 ..
qed

lemma Uint32_inj: "length a = 4 \<Longrightarrow> length b = 4 \<Longrightarrow> Uint32 a = Uint32 b \<Longrightarrow> a = b"
  by (metis PutUint32_Uint32)

lemma flip_bit_neq: "j < 8 \<Longrightarrow> flip_bit j (b :: byte) \<noteq> b"
proof
  assume j: "j < 8" and e: "flip_bit j b = b"
  have "bit (flip_bit j b) j = (\<not> bit b j)" using j by (simp add: bit_flip_bit_iff)
  with e show False by simp
qed
text \<open>
  Flipping bit \<open>j\<close> of the byte at index \<open>i\<close> of a byte string.
\<close>

definition flipBit :: "bytes \<Rightarrow> nat \<Rightarrow> nat \<Rightarrow> bytes" where
  "flipBit f i j = f[i := flip_bit j (f ! i)]"

lemma flipBit_split:
  assumes "i < length f" "j < 8"
  shows "\<exists>xs b b' ys. f = xs @ b # ys \<and> flipBit f i j = xs @ b' # ys \<and> b' \<noteq> b \<and> length xs = i"
proof -
  have "f = take i f @ f ! i # drop (Suc i) f" using assms(1) by (rule id_take_nth_drop)
  moreover have "flipBit f i j = take i f @ flip_bit j (f ! i) # drop (Suc i) f"
    unfolding flipBit_def using assms(1) by (rule upd_conv_take_nth_drop)
  moreover have "flip_bit j (f ! i) \<noteq> f ! i" using assms(2) by (rule flip_bit_neq)
  moreover have "length (take i f) = i" using assms(1) by simp
  ultimately show ?thesis by blast
qed

lemma ChecksumIEEE_flipBit:
  assumes "i < length f" "j < 8"
  shows "ChecksumIEEE (xs @ flipBit f i j) \<noteq> ChecksumIEEE (xs @ f)"
proof -
  obtain ys b b' zs where f: "f = ys @ b # zs" and f': "flipBit f i j = ys @ b' # zs" and ne: "b' \<noteq> b"
    using flipBit_split [OF assms] by blast
  have "ChecksumIEEE ((xs @ ys) @ b' # zs) \<noteq> ChecksumIEEE ((xs @ ys) @ b # zs)"
    using ne by (rule ChecksumIEEE_byte_change)
  then show ?thesis unfolding f' by (simp add: f)
qed

lemma length_flipBit: "length (flipBit f i j) = length f"
  by (simp add: flipBit_def)

text \<open>
  Claim C5, as amended. For a stored record with a non-empty key, whose key and value
  lengths fit the header, flipping one bit of its frame in the checksum field, in the type
  byte, in the key or in the value makes \<open>ReadLogRecord\<close> at the offset of the frame return
  \<open>ErrInvalidCRC\<close>. The two size fields are left out.
\<close>

theorem single_bit_flip_outside_sizes_detected:
  assumes key: "Key r \<noteq> []"
    and kb: "length (Key r) < 2 ^ 32" and vb: "length (Value r) < 2 ^ 32"
    and enc: "EncodeLogRecord r = Inr (enc, n)"
    and i: "i < length enc" and j: "j < 8"
    and pos: "i < 5 \<or> 5 + length (PutVarint (int (length (Key r))))
                         + length (PutVarint (int (length (Value r)))) \<le> i"
  shows "ReadLogRecord (pre @ flipBit enc i j @ post) (int (length pre)) = Inl ErrInvalidCRC"
proof -
  let ?ks = "PutVarint (int (length (Key r)))" and ?vs = "PutVarint (int (length (Value r)))"
  let ?body = "Type r # ?ks @ ?vs @ Key r @ Value r"
  let ?c = "ChecksumIEEE ?body"
  let ?cb = "PutUint32 ?c"
  let ?hs = "5 + length ?ks + length ?vs"
  have l4: "length ?cb = 4" by (simp add: PutUint32_def)
  have e: "enc = ?cb @ ?body" using enc EncodeLogRecord_ok [OF kb vb] by simp
  have u: "Uint32 ?cb = ?c" using Uint32_PutUint32 [of ?c "[]"] by simp
  consider (crc) "i < 4" | (type) "i = 4" | (kv) "?hs \<le> i" using pos by linarith
  then show ?thesis
  proof cases
    case crc
    let ?cb' = "flipBit ?cb i j"
    have l4': "length ?cb' = 4" by (simp add: length_flipBit l4)
    have fe: "flipBit enc i j = ?cb' @ ?body"
      using crc by (simp add: flipBit_def e l4 list_update_append1 nth_append)
    have "?cb' \<noteq> ?cb"
      using flipBit_split [of i ?cb j] crc j l4 by auto
    then have ne: "Uint32 ?cb' \<noteq> ?c" using Uint32_inj [OF l4' l4] u by auto
    have noeof: "\<not> (Uint32 ?cb' = 0 \<and> Key r = [] \<and> Value r = [])" using key by simp
    show ?thesis
      unfolding fe
      using ReadLogRecord_frame [OF l4' kb vb noeof, of pre "Type r" post] ne
      by (simp only: not_sym if_True simp_thms)
  next
    case type
    let ?t' = "flip_bit j (Type r)"
    have fe: "flipBit enc i j = ?cb @ ?t' # ?ks @ ?vs @ Key r @ Value r"
      using type by (simp add: flipBit_def e l4 list_update_append nth_append)
    have "ChecksumIEEE ([] @ ?t' # ?ks @ ?vs @ Key r @ Value r) \<noteq> ChecksumIEEE ([] @ Type r # ?ks @ ?vs @ Key r @ Value r)"
      using flip_bit_neq [OF j] by (rule ChecksumIEEE_byte_change)
    then have ne: "ChecksumIEEE (?t' # ?ks @ ?vs @ Key r @ Value r) \<noteq> Uint32 ?cb" by (simp add: u)
    have noeof: "\<not> (Uint32 ?cb = 0 \<and> Key r = [] \<and> Value r = [])" using key by simp
    show ?thesis
      unfolding fe
      using ReadLogRecord_frame [OF l4 kb vb noeof, of pre ?t' post] ne
      by (simp only: if_True simp_thms)
  next
    case kv
    define m where "m = i - ?hs"
    define kv' where "kv' = flipBit (Key r @ Value r) m j"
    define key' where "key' = take (length (Key r)) kv'"
    define val' where "val' = drop (length (Key r)) kv'"
    have lenc: "length enc = ?hs + length (Key r) + length (Value r)" by (simp add: e l4)
    have m: "m < length (Key r @ Value r)" using i kv lenc by (simp add: m_def)
    have lkv: "length kv' = length (Key r) + length (Value r)" by (simp add: kv'_def length_flipBit)
    have lk: "length key' = length (Key r)" and lv: "length val' = length (Value r)"
      by (simp_all add: key'_def val'_def lkv)
    have kvs: "key' @ val' = kv'" by (simp add: key'_def val'_def)
    have fe: "flipBit enc i j = ?cb @ Type r # ?ks @ ?vs @ key' @ val'"
    proof -
      define H where "H = ?cb @ Type r # ?ks @ ?vs"
      have lh: "length H = ?hs" by (simp add: H_def l4)
      have eh: "enc = H @ (Key r @ Value r)" by (simp add: e H_def)
      have "i = length H + m" using kv lh by (simp add: m_def)
      then have "flipBit enc i j = H @ flipBit (Key r @ Value r) m j"
        unfolding flipBit_def eh by (simp add: list_update_append nth_append)
      then show ?thesis by (simp add: H_def kvs kv'_def)
    qed
    have "ChecksumIEEE ((Type r # ?ks @ ?vs) @ flipBit (Key r @ Value r) m j)
            \<noteq> ChecksumIEEE ((Type r # ?ks @ ?vs) @ (Key r @ Value r))"
      using m j by (rule ChecksumIEEE_flipBit)
    then have ne: "ChecksumIEEE (Type r # PutVarint (int (length key')) @ PutVarint (int (length val')) @ key' @ val')
                     \<noteq> Uint32 ?cb"
      unfolding lk lv by (simp add: u kvs kv'_def)
    have kb': "length key' < 2 ^ 32" and vb': "length val' < 2 ^ 32" using kb vb lk lv by simp_all
    have noeof: "\<not> (Uint32 ?cb = 0 \<and> key' = [] \<and> val' = [])" using key lk by auto
    have fe': "flipBit enc i j = ?cb @ Type r # PutVarint (int (length key')) @ PutVarint (int (length val')) @ key' @ val'"
      unfolding lk lv by (rule fe)
    show ?thesis
      unfolding fe'
      using ReadLogRecord_frame [OF l4 kb' vb' noeof, of pre "Type r" post] ne
      by (simp only: if_True simp_thms)
  qed
qed
lemmas read_eval = ReadLogRecord_def readNBytes_def decodeLogRecordHeader_def Varint_def
  Uvarint_def getLogRecordCRC_def Uint32_def maxLogRecordHeaderSize_def drop_bit_eq_div crc_eval

theorem single_bit_flip_outside_sizes_detected_witness:
  "Key \<lparr>Key = [101, 110, 103, 105, 110, 101], Value = [98, 101, 116, 97, 100, 98], Type = 0\<rparr> \<noteq> []
   \<and> EncodeLogRecord \<lparr>Key = [101, 110, 103, 105, 110, 101], Value = [98, 101, 116, 97, 100, 98], Type = 0\<rparr>
        = Inr ([77, 26, 80, 17, 0, 12, 12, 101, 110, 103, 105, 110, 101, 98, 101, 116, 97, 100, 98], 19)
   \<and> ReadLogRecord
         (flipBit [77, 26, 80, 17, 0, 12, 12, 101, 110, 103, 105, 110, 101, 98, 101, 116, 97, 100, 98] 10 0) 0
        = Inl ErrInvalidCRC"
proof -
  let ?r = "\<lparr>Key = [101, 110, 103, 105, 110, 101], Value = [98, 101, 116, 97, 100, 98], Type = 0 :: byte\<rparr>"
  let ?f = "[77, 26, 80, 17, 0, 12, 12, 101, 110, 103, 105, 110, 101, 98, 101, 116, 97, 100, 98] :: bytes"
  have key: "Key ?r \<noteq> []" by simp
  have k: "length (Key ?r) < 2 ^ 32" and v: "length (Value ?r) < 2 ^ 32" by simp_all
  have enc: "EncodeLogRecord ?r = Inr (?f, 19)" by (simp add: encode_eval)
  have i: "10 < length ?f" and j: "(0::nat) < 8" by simp_all
  have pos: "(10::nat) < 5 \<or> 5 + length (PutVarint (int (length (Key ?r))))
                         + length (PutVarint (int (length (Value ?r)))) \<le> 10"
    by (simp add: PutVarint_def PutUvarint_small)
  have "ReadLogRecord ([] @ flipBit ?f 10 0 @ []) (int (length ([] :: bytes))) = Inl ErrInvalidCRC"
    by (rule single_bit_flip_outside_sizes_detected [OF key k v enc i j pos])
  then show ?thesis using key enc by simp
qed

text \<open>
  Claim C5 as stated fails: in the frame of the record with key \<open>engine\<close> and value
  \<open>betadb\<close>, standing alone in a file, flipping bit 1 of the key-size byte (index 5)
  turns the key size 6 into 7, the read of key and value runs past the end of the file,
  and \<open>ReadLogRecord\<close> returns \<open>io.EOF\<close>, not \<open>ErrInvalidCRC\<close>.
\<close>

theorem bit_flip_in_key_size_reads_EOF:
  "EncodeLogRecord \<lparr>Key = [101, 110, 103, 105, 110, 101], Value = [98, 101, 116, 97, 100, 98], Type = 0\<rparr>
     = Inr ([77, 26, 80, 17, 0, 12, 12, 101, 110, 103, 105, 110, 101, 98, 101, 116, 97, 100, 98], 19)
   \<and> ReadLogRecord
         (flipBit [77, 26, 80, 17, 0, 12, 12, 101, 110, 103, 105, 110, 101, 98, 101, 116, 97, 100, 98] 5 1) 0
        = Inl EOF"
proof -
  have f: "flipBit [77, 26, 80, 17, 0, 12, 12, 101, 110, 103, 105, 110, 101, 98, 101, 116, 97, 100, 98] 5 1
             = [77, 26, 80, 17, 0, 14, 12, 101, 110, 103, 105, 110, 101, 98, 101, 116, 97, 100, 98]"
    by (simp add: flipBit_def flip_bit_eq_xor)
  have "ReadLogRecord [77, 26, 80, 17, 0, 14, 12, 101, 110, 103, 105, 110, 101, 98, 101, 116, 97, 100, 98] 0
          = Inl EOF"
    by (simp add: read_eval)
  moreover have "EncodeLogRecord \<lparr>Key = [101, 110, 103, 105, 110, 101], Value = [98, 101, 116, 97, 100, 98], Type = 0\<rparr>
     = Inr ([77, 26, 80, 17, 0, 12, 12, 101, 110, 103, 105, 110, 101, 98, 101, 116, 97, 100, 98], 19)"
    by (simp add: encode_eval)
  ultimately show ?thesis by (simp only: f simp_thms)
qed

section \<open>The key directory (package index)\<close>

text \<open>
  The default indexer wraps an ordered in-memory tree whose items are compared by
  \<open>bytes.Compare\<close> on their keys, which is the lexicographic order of byte lists. The tree
  is held as the list of its items in that order: \<open>ReplaceOrInsert\<close> removes an item with
  the same key and puts the new one at its place in the order, \<open>Delete\<close> removes it.
  \<open>BTree_Put\<close> returns the old position (or \<open>None\<close> for nil), \<open>BTree_Delete\<close> the old
  position and whether an item was there.
\<close>

type_synonym Item = "bytes \<times> LogRecordPos"
type_synonym BTree = "Item list"

definition NewBTree :: BTree where
  "NewBTree = []"

definition BTree_Get :: "BTree \<Rightarrow> bytes \<Rightarrow> LogRecordPos option" where
  "BTree_Get bt key = map_of bt key"

definition BTree_Put :: "BTree \<Rightarrow> bytes \<Rightarrow> LogRecordPos \<Rightarrow> LogRecordPos option \<times> BTree" where
  "BTree_Put bt key pos =
     (map_of bt key, insort_key fst (key, pos) (filter (\<lambda>it. fst it \<noteq> key) bt))"

definition BTree_Delete :: "BTree \<Rightarrow> bytes \<Rightarrow> (LogRecordPos option \<times> bool) \<times> BTree" where
  "BTree_Delete bt key =
     ((map_of bt key, map_of bt key \<noteq> None), filter (\<lambda>it. fst it \<noteq> key) bt)"

definition BTree_Size :: "BTree \<Rightarrow> nat" where
  "BTree_Size bt = length bt"

text \<open>
  The index iterator snapshots the items, ascending or descending, and walks the snapshot
  by position.
\<close>

record bTreeIterator =
  currentIndex :: nat
  reverse :: bool
  values_snapshot :: "Item list"






definition bTreeIterator_Value :: "bTreeIterator \<Rightarrow> error + LogRecordPos" where
  "bTreeIterator_Value bti =
     (if currentIndex bti < length (values_snapshot bti)
      then Inr (snd (values_snapshot bti ! currentIndex bti)) else Inl Panic)"

section \<open>The engine (package betadb)\<close>

subsection \<open>State\<close>

text \<open>
  A data file handle carries its id and write offset; the bytes live in the directory.
  The directory holds the data files by the number in their name, and the hint,
  merge-finished and sequence-number files when present. Every data file name is taken to
  be the nine-digit decimal name the engine itself gives (\<open>GetDataFileName\<close>), so that a
  name and its number determine each other.
\<close>

record DataFile =
  FileID :: "32 word"
  WriteOffset :: int

record Directory =
  dataFiles :: "(nat \<times> bytes) list"
  hintFile :: "bytes option"
  mergeFinishedFile :: "bytes option"
  seqNoFile :: "bytes option"

text \<open>
  The options the engine reads. The only index type modelled is the default ordered tree.
  \<open>DataFileMergeRatio\<close> is a \<open>float32\<close> compared with a quotient of floats: the outcome of
  that comparison is an input of \<open>Merge\<close> below.
\<close>

record Options =
  DataFileSize :: int
  SyncWrites :: bool
  BytesPerSync :: nat

record Database =
  options :: Options
  fileIDs :: "nat list"
  activeFile :: "DataFile option"
  olderFiles :: "(32 word \<times> DataFile) list"
  index :: BTree
  seqNo :: nat
  isMerging :: bool
  bytesWrite :: nat
  reclaimSize :: int

definition nonTransactionSeqNo :: nat where
  "nonTransactionSeqNo = 0"

definition txnFinKey :: bytes where
  "txnFinKey = [0x74, 0x78, 0x6e, 0x2d, 0x66, 0x69, 0x6e]"

text \<open>\<open>logRecordKeyWithSeq\<close> and \<open>parseLogRecordKey\<close>: the sequence number as an unsigned
  varint in front of the key. Slicing at a negative count panics.\<close>

definition logRecordKeyWithSeq :: "bytes \<Rightarrow> nat \<Rightarrow> bytes" where
  "logRecordKeyWithSeq key seq = PutUvarint seq @ key"

definition parseLogRecordKey :: "bytes \<Rightarrow> error + (bytes \<times> nat)" where
  "parseLogRecordKey key =
     (let (seq, n) = Uvarint key
      in if n < 0 then Inl Panic else Inr (drop (nat n) key, seq))"

subsection \<open>Data files in a directory\<close>

text \<open>
  \<open>OpenDataFile\<close> opens with create and append: an absent file appears empty, a present
  one keeps its bytes, and the handle starts with write offset 0. \<open>Write\<close> appends at the
  end of the file and advances the write offset by the number of bytes written.
\<close>

definition fileBytes :: "Directory \<Rightarrow> 32 word \<Rightarrow> bytes option" where
  "fileBytes dir fid = map_of (dataFiles dir) (unat fid)"

definition setFileBytes :: "Directory \<Rightarrow> 32 word \<Rightarrow> bytes \<Rightarrow> Directory" where
  "setFileBytes dir fid content =
     dir\<lparr>dataFiles :=
           (if unat fid \<in> fst ` set (dataFiles dir)
            then map (\<lambda>(n, c). if n = unat fid then (n, content) else (n, c)) (dataFiles dir)
            else dataFiles dir @ [(unat fid, content)])\<rparr>"

definition OpenDataFile :: "Directory \<Rightarrow> 32 word \<Rightarrow> DataFile \<times> Directory" where
  "OpenDataFile dir fid =
     (\<lparr>FileID = fid, WriteOffset = 0\<rparr>,
      (case fileBytes dir fid of None \<Rightarrow> setFileBytes dir fid [] | Some _ \<Rightarrow> dir))"

definition DataFile_ReadLogRecord :: "Directory \<Rightarrow> DataFile \<Rightarrow> int \<Rightarrow> error + (LogRecord \<times> int)" where
  "DataFile_ReadLogRecord dir df offset =
     (case fileBytes dir (FileID df) of
        None \<Rightarrow> Inl IOError
      | Some content \<Rightarrow> ReadLogRecord content offset)"

definition DataFile_Write :: "Directory \<Rightarrow> DataFile \<Rightarrow> bytes \<Rightarrow> DataFile \<times> Directory" where
  "DataFile_Write dir df buffer =
     (df\<lparr>WriteOffset := WriteOffset df + int (length buffer)\<rparr>,
      setFileBytes dir (FileID df)
        ((case fileBytes dir (FileID df) of None \<Rightarrow> [] | Some content \<Rightarrow> content) @ buffer))"

subsection \<open>Append path\<close>

text \<open>
  \<open>olderFiles[id] = file\<close> on the map of immutable files.
\<close>

definition putOlder :: "(32 word \<times> DataFile) list \<Rightarrow> 32 word \<Rightarrow> DataFile \<Rightarrow> (32 word \<times> DataFile) list" where
  "putOlder m fid df = (fid, df) # filter (\<lambda>e. fst e \<noteq> fid) m"

definition setActiveDataFile :: "Database \<Rightarrow> Directory \<Rightarrow> Database \<times> Directory" where
  "setActiveDataFile db dir =
     (let initialFileID = (case activeFile db of None \<Rightarrow> 0 | Some af \<Rightarrow> FileID af + 1);
          (dataFile, dir') = OpenDataFile dir initialFileID
      in (db\<lparr>activeFile := Some dataFile\<rparr>, dir'))"

text \<open>
  \<open>appendLogRecord\<close>. \<open>Sync\<close> has no effect on the bytes of a file and is left out; what the
  sync decision does to \<open>bytesWrite\<close> is kept. A nil active file where the code dereferences
  it is the \<open>Panic\<close> branch.
\<close>

definition appendLogRecord ::
  "Database \<Rightarrow> Directory \<Rightarrow> LogRecord \<Rightarrow> error + (LogRecordPos \<times> Database \<times> Directory)" where
  "appendLogRecord db dir logRecord =
     (let (db1, dir1) = (case activeFile db of None \<Rightarrow> setActiveDataFile db dir
                         | Some _ \<Rightarrow> (db, dir))
      in case EncodeLogRecord logRecord of
           Inl e \<Rightarrow> Inl e
         | Inr (encRecord, sz) \<Rightarrow>
             (case activeFile db1 of
                None \<Rightarrow> Inl Panic
              | Some af \<Rightarrow>
                  (let (db2, dir2) =
                         (if DataFileSize (options db1) < WriteOffset af + sz
                          then setActiveDataFile
                                 (db1\<lparr>olderFiles := putOlder (olderFiles db1) (FileID af) af\<rparr>) dir1
                          else (db1, dir1))
                   in case activeFile db2 of
                        None \<Rightarrow> Inl Panic
                      | Some af2 \<Rightarrow>
                          (let writeOffset = WriteOffset af2;
                               (af3, dir3) = DataFile_Write dir2 af2 encRecord;
                               written = bytesWrite db2 + nat sz;
                               needSync = (SyncWrites (options db2)
                                           \<or> (0 < BytesPerSync (options db2)
                                               \<and> BytesPerSync (options db2) \<le> written));
                               db3 = db2\<lparr>activeFile := Some af3,
                                         bytesWrite := (if needSync then 0 else written)\<rparr>
                           in Inr (\<lparr>Fid = FileID af3, Offset = writeOffset,
                                     Size = word_of_int sz\<rparr>, db3, dir3)))))"

subsection \<open>Put, Delete, Get\<close>

definition addReclaim :: "Database \<Rightarrow> LogRecordPos option \<Rightarrow> Database" where
  "addReclaim db oldPos =
     (case oldPos of None \<Rightarrow> db
      | Some p \<Rightarrow> db\<lparr>reclaimSize := reclaimSize db + uint (Size p)\<rparr>)"

definition Put :: "Database \<Rightarrow> Directory \<Rightarrow> bytes \<Rightarrow> bytes \<Rightarrow> error + (Database \<times> Directory)" where
  "Put db dir key val =
     (if length key = 0 then Inl ErrKeyIsEmpty
      else
        (let logRecord = \<lparr>Key = logRecordKeyWithSeq key nonTransactionSeqNo, Value = val,
                          Type = LogRecordNormal\<rparr>
         in case appendLogRecord db dir logRecord of
              Inl e \<Rightarrow> Inl e
            | Inr (pos, db', dir') \<Rightarrow>
                (let (oldPos, idx) = BTree_Put (index db') key pos
                 in Inr (addReclaim (db'\<lparr>index := idx\<rparr>) oldPos, dir'))))"

definition Delete :: "Database \<Rightarrow> Directory \<Rightarrow> bytes \<Rightarrow> error + (Database \<times> Directory)" where
  "Delete db dir key =
     (if length key = 0 then Inl ErrKeyIsEmpty
      else if BTree_Get (index db) key = None then Inr (db, dir)
      else
        (let logRecord = \<lparr>Key = logRecordKeyWithSeq key nonTransactionSeqNo, Value = [],
                          Type = LogRecordDeleted\<rparr>
         in case appendLogRecord db dir logRecord of
              Inl e \<Rightarrow> Inl e
            | Inr (pos, db', dir') \<Rightarrow>
                (let db'' = db'\<lparr>reclaimSize := reclaimSize db' + uint (Size pos)\<rparr>;
                     ((oldPos, ok), idx) = BTree_Delete (index db'') key
                 in if \<not> ok then Inl ErrIndexUpdateFailed
                    else Inr (addReclaim (db''\<lparr>index := idx\<rparr>) oldPos, dir'))))"

definition getValueByPosition :: "Database \<Rightarrow> Directory \<Rightarrow> LogRecordPos \<Rightarrow> error + bytes" where
  "getValueByPosition db dir logRecordPos =
     (case activeFile db of
        None \<Rightarrow> Inl Panic
      | Some af \<Rightarrow>
          (case (if FileID af = Fid logRecordPos then Some af
                 else map_of (olderFiles db) (Fid logRecordPos)) of
             None \<Rightarrow> Inl ErrDataFileNotFound
           | Some dataFile \<Rightarrow>
               (case DataFile_ReadLogRecord dir dataFile (Offset logRecordPos) of
                  Inl e \<Rightarrow> Inl e
                | Inr (logRecord, _) \<Rightarrow>
                    if Type logRecord = LogRecordDeleted then Inl ErrKeyNotFound
                    else Inr (Value logRecord))))"

definition Get :: "Database \<Rightarrow> Directory \<Rightarrow> bytes \<Rightarrow> error + bytes" where
  "Get db dir key =
     (if length key = 0 then Inl ErrKeyIsEmpty
      else case BTree_Get (index db) key of
             None \<Rightarrow> Inl ErrKeyNotFound
           | Some logRecordPos \<Rightarrow> getValueByPosition db dir logRecordPos)"

definition ListKeys :: "Database \<Rightarrow> bytes list" where
  "ListKeys db = map fst (index db)"
subsection \<open>Write batch\<close>

text \<open>
  \<open>pendingWrites\<close> is a Go map from the key to the staged record, whose \<open>Key\<close> is that
  key; Go ranges over a map in no fixed order. The model holds the staged records in a list
  without two records of the same key, and ranges over it in list order; a statement
  about every batch is then a statement about every order.
\<close>

record WriteBatchOptions =
  MaxBatchNum :: nat
  SyncOnCommit :: bool

record WriteBatch =
  wb_options :: WriteBatchOptions
  pendingWrites :: "LogRecord list"

definition NewWriteBatch :: "WriteBatchOptions \<Rightarrow> WriteBatch" where
  "NewWriteBatch opts = \<lparr>wb_options = opts, pendingWrites = []\<rparr>"

definition stage :: "LogRecord list \<Rightarrow> LogRecord \<Rightarrow> LogRecord list" where
  "stage pending logRecord = filter (\<lambda>r. Key r \<noteq> Key logRecord) pending @ [logRecord]"

definition WriteBatch_Put :: "WriteBatch \<Rightarrow> bytes \<Rightarrow> bytes \<Rightarrow> error + WriteBatch" where
  "WriteBatch_Put wb key val =
     (if length key = 0 then Inl ErrKeyIsEmpty
      else Inr (wb\<lparr>pendingWrites :=
                      stage (pendingWrites wb) \<lparr>Key = key, Value = val, Type = LogRecordNormal\<rparr>\<rparr>))"

definition WriteBatch_Delete :: "WriteBatch \<Rightarrow> Database \<Rightarrow> bytes \<Rightarrow> error + WriteBatch" where
  "WriteBatch_Delete wb db key =
     (if length key = 0 then Inl ErrKeyIsEmpty
      else if BTree_Get (index db) key = None
      then Inr (wb\<lparr>pendingWrites := filter (\<lambda>r. Key r \<noteq> key) (pendingWrites wb)\<rparr>)
      else Inr (wb\<lparr>pendingWrites :=
                      stage (pendingWrites wb) \<lparr>Key = key, Value = [], Type = LogRecordDeleted\<rparr>\<rparr>))"

text \<open>
  The first loop of \<open>Commit\<close>: every staged record is appended under the sequence number and
  its position is remembered under its key.
\<close>

fun commitAppend ::
  "LogRecord list \<Rightarrow> nat \<Rightarrow> Database \<Rightarrow> Directory \<Rightarrow> (bytes \<times> LogRecordPos) list
     \<Rightarrow> error + ((bytes \<times> LogRecordPos) list \<times> Database \<times> Directory)" where
  "commitAppend [] seq db dir positions = Inr (positions, db, dir)"
| "commitAppend (record # rest) seq db dir positions =
     (case appendLogRecord db dir
             \<lparr>Key = logRecordKeyWithSeq (Key record) seq, Value = Value record, Type = Type record\<rparr> of
        Inl e \<Rightarrow> Inl e
      | Inr (logRecordPos, db', dir') \<Rightarrow>
          commitAppend rest seq db' dir'
            ((Key record, logRecordPos) # filter (\<lambda>e. fst e \<noteq> Key record) positions))"

text \<open>
  The second loop: the key directory is updated from the staged records. A staged key
  always has a position from the first loop; the branch for a missing one stands for the
  nil position the code would store.
\<close>

fun commitIndex :: "LogRecord list \<Rightarrow> (bytes \<times> LogRecordPos) list \<Rightarrow> Database \<Rightarrow> error + Database" where
  "commitIndex [] positions db = Inr db"
| "commitIndex (record # rest) positions db =
     (case map_of positions (Key record) of
        None \<Rightarrow> Inl Panic
      | Some pos \<Rightarrow>
          (let (oldPos1, db1) =
                 (if Type record = LogRecordNormal
                  then (let (old, idx) = BTree_Put (index db) (Key record) pos
                        in (old, db\<lparr>index := idx\<rparr>))
                  else (None, db));
               (oldPos2, db2) =
                 (if Type record = LogRecordDeleted
                  then (let ((old, _), idx) = BTree_Delete (index db1) (Key record)
                        in (old, db1\<lparr>index := idx\<rparr>))
                  else (oldPos1, db1))
           in commitIndex rest positions (addReclaim db2 oldPos2)))"

definition Commit ::
  "WriteBatch \<Rightarrow> Database \<Rightarrow> Directory \<Rightarrow> error + (WriteBatch \<times> Database \<times> Directory)" where
  "Commit wb db dir =
     (if length (pendingWrites wb) = 0 then Inr (wb, db, dir)
      else if MaxBatchNum (wb_options wb) < length (pendingWrites wb) then Inl ErrExceedMaxBatchNum
      else
        (let seq = (seqNo db + 1) mod 2 ^ 64;
             db0 = db\<lparr>seqNo := seq\<rparr>
         in case commitAppend (pendingWrites wb) seq db0 dir [] of
              Inl e \<Rightarrow> Inl e
            | Inr (positions, db1, dir1) \<Rightarrow>
                (case appendLogRecord db1 dir1
                        \<lparr>Key = logRecordKeyWithSeq txnFinKey seq, Value = [],
                          Type = LogRecordTxnFinished\<rparr> of
                   Inl e \<Rightarrow> Inl e
                 | Inr (_, db2, dir2) \<Rightarrow>
                     (case commitIndex (pendingWrites wb) positions db2 of
                        Inl e \<Rightarrow> Inl e
                      | Inr db3 \<Rightarrow> Inr (wb\<lparr>pendingWrites := []\<rparr>, db3, dir2)))))"

subsection \<open>Recovery: replay of the data files\<close>

text \<open>
  \<open>updateIndex\<close>, the closure of \<open>loadIndexFromDataFiles\<close>.
\<close>

definition updateIndex :: "Database \<Rightarrow> bytes \<Rightarrow> byte \<Rightarrow> LogRecordPos \<Rightarrow> Database" where
  "updateIndex db key tp pos =
     (if tp = LogRecordDeleted
      then (let ((oldPos, _), idx) = BTree_Delete (index db) key
            in addReclaim (db\<lparr>index := idx, reclaimSize := reclaimSize db + uint (Size pos)\<rparr>) oldPos)
      else (let (oldPos, idx) = BTree_Put (index db) key pos
            in addReclaim (db\<lparr>index := idx\<rparr>) oldPos))"

text \<open>
  The state of the replay loop: the engine, the buffered records of every sequence number
  (a missing map entry is the empty slice) and the largest sequence number seen.
\<close>

record Replay =
  rp_db :: Database
  transactionRecords :: "nat \<Rightarrow> (LogRecord \<times> LogRecordPos) list"
  currentSeqNo :: nat

fun applyTxn :: "Database \<Rightarrow> (LogRecord \<times> LogRecordPos) list \<Rightarrow> Database" where
  "applyTxn db [] = db"
| "applyTxn db ((record, pos) # rest) = applyTxn (updateIndex db (Key record) (Type record) pos) rest"

text \<open>The body of the inner loop for one record read at a position.\<close>

definition replayRecord :: "Replay \<Rightarrow> LogRecord \<Rightarrow> LogRecordPos \<Rightarrow> error + Replay" where
  "replayRecord rp logRecord logRecordPos =
     (case parseLogRecordKey (Key logRecord) of
        Inl e \<Rightarrow> Inl e
      | Inr (realKey, seq) \<Rightarrow>
          (let rp' =
                 (if seq = nonTransactionSeqNo
                  then rp\<lparr>rp_db := updateIndex (rp_db rp) realKey (Type logRecord) logRecordPos\<rparr>
                  else if Type logRecord = LogRecordTxnFinished
                  then rp\<lparr>rp_db := applyTxn (rp_db rp) (transactionRecords rp seq),
                          transactionRecords := (transactionRecords rp)(seq := [])\<rparr>
                  else rp\<lparr>transactionRecords :=
                            (transactionRecords rp)
                              (seq := transactionRecords rp seq @ [(logRecord\<lparr>Key := realKey\<rparr>, logRecordPos)])\<rparr>)
           in Inr (rp'\<lparr>currentSeqNo := (if currentSeqNo rp' < seq then seq else currentSeqNo rp')\<rparr>)))"
lemma ReadLogRecord_Inr_bounds:
  assumes "ReadLogRecord content offset = Inr (r, n)"
  shows "0 \<le> offset" and "offset + 5 \<le> int (length content)" and "4 \<le> n"
proof -
  define hb where "hb = (if int (length content) < offset + maxLogRecordHeaderSize
                         then int (length content) - offset else maxLogRecordHeaderSize)"
  obtain headerBuffer where hdr: "readNBytes content hb offset = Inr headerBuffer"
    using assms unfolding ReadLogRecord_def Let_def hb_def [symmetric]
    by (cases "readNBytes content hb offset") auto
  obtain header headerSize where dec: "decodeLogRecordHeader headerBuffer = Inr (Some header, headerSize)"
    using assms hdr unfolding ReadLogRecord_def Let_def hb_def [symmetric]
    by (cases "decodeLogRecordHeader headerBuffer") (auto split: option.splits)
  have long: "4 < length headerBuffer"
    using dec unfolding decodeLogRecordHeader_def by (auto split: if_splits)
  have hbs: "0 \<le> offset \<and> int (length headerBuffer) \<le> int (length content) - offset"
    using hdr long unfolding readNBytes_def by (auto split: if_splits)
  show "0 \<le> offset" using hbs by simp
  show "offset + 5 \<le> int (length content)" using hbs long by linarith
  have "4 \<le> headerSize \<and> n = headerSize + uint (keySize header) + uint (valueSize header)"
    using assms hdr dec unfolding ReadLogRecord_def Let_def hb_def [symmetric]
    by (auto split: if_splits sum.splits)
  then show "4 \<le> n" by (smt (verit) uint_ge_0)
qed

text \<open>
  The inner loop of \<open>loadIndexFromDataFiles\<close> over one file, from an offset: it ends at
  \<open>io.EOF\<close> and returns the offset reached, and any other error ends the replay.
\<close>

function scanFile :: "bytes \<Rightarrow> 32 word \<Rightarrow> int \<Rightarrow> Replay \<Rightarrow> error + (Replay \<times> int)" where
  "scanFile content fileID offset rp =
     (case ReadLogRecord content offset of
        Inl e \<Rightarrow> if e = EOF then Inr (rp, offset) else Inl e
      | Inr (logRecord, sz) \<Rightarrow>
          (case replayRecord rp logRecord \<lparr>Fid = fileID, Offset = offset, Size = word_of_int sz\<rparr> of
             Inl e \<Rightarrow> Inl e
           | Inr rp' \<Rightarrow> scanFile content fileID (offset + sz) rp'))"
  by pat_completeness auto
termination
proof (relation "measure (\<lambda>(content, fileID, offset, rp). nat (int (length content) - offset))")
  show "wf (measure (\<lambda>(content, fileID, offset, rp). nat (int (length content) - offset)))" by simp
next
  fix content :: bytes and fileID :: "32 word" and offset :: int and rp :: Replay
    and x2 :: "LogRecord \<times> int" and logRecord sz rp'
  assume "ReadLogRecord content offset = Inr x2" and "(logRecord, sz) = x2"
  then have r: "ReadLogRecord content offset = Inr (logRecord, sz)" by simp
  have "offset + 5 \<le> int (length content)" "4 \<le> sz"
    using ReadLogRecord_Inr_bounds [OF r] by simp_all
  then show "((content, fileID, offset + sz, rp'), (content, fileID, offset, rp))
               \<in> measure (\<lambda>(content, fileID, offset, rp). nat (int (length content) - offset))"
    by simp
qed

declare scanFile.simps [simp del]
text \<open>
  After the loop over a file, \<open>loadIndexFromDataFiles\<close> walks the file ids in ascending
  order, skips the ids below the merge frontier, picks the handle of each file (a nil
  handle panics) and sets the write offset of the active file when the last id was scanned.
\<close>

fun replayFiles ::
  "Directory \<Rightarrow> bool \<Rightarrow> 32 word \<Rightarrow> nat list \<Rightarrow> Replay \<Rightarrow> error + Replay" where
  "replayFiles dir hasMerge nonMergeFileID [] rp = Inr rp"
| "replayFiles dir hasMerge nonMergeFileID (fid # rest) rp =
     (let fileID = (of_nat fid :: 32 word)
      in if hasMerge \<and> fileID < nonMergeFileID
         then replayFiles dir hasMerge nonMergeFileID rest rp
         else
           (case activeFile (rp_db rp) of
              None \<Rightarrow> Inl Panic
            | Some af \<Rightarrow>
                (case (if fileID = FileID af then Some af
                       else map_of (olderFiles (rp_db rp)) fileID) of
                   None \<Rightarrow> Inl Panic
                 | Some dataFile \<Rightarrow>
                     (case fileBytes dir (FileID dataFile) of
                        None \<Rightarrow> Inl IOError
                      | Some content \<Rightarrow>
                          (case scanFile content fileID 0 rp of
                             Inl e \<Rightarrow> Inl e
                           | Inr (rp', offset) \<Rightarrow>
                               replayFiles dir hasMerge nonMergeFileID rest
                                 (if rest = []
                                  then rp'\<lparr>rp_db := (rp_db rp')
                                              \<lparr>activeFile := Some (af\<lparr>WriteOffset := offset\<rparr>)\<rparr>\<rparr>
                                  else rp'))))))"

subsection \<open>Decimal numbers, positions in hint files\<close>

text \<open>
  \<open>strconv.Itoa\<close> and \<open>strconv.FormatUint\<close> in base ten on a number that is not
  negative, and \<open>strconv.Atoi\<close>: an optional sign and at least one digit, nothing else, and
  a value in the range of \<open>int64\<close>; \<open>None\<close> is the error.
\<close>

function Itoa :: "nat \<Rightarrow> bytes" where
  "Itoa n = (if n < 10 then [of_nat (48 + n)] else Itoa (n div 10) @ [of_nat (48 + n mod 10)])"
  by pat_completeness auto
termination
  by (relation "measure id") auto

declare Itoa.simps [simp del]

fun digitsValue :: "bytes \<Rightarrow> nat \<Rightarrow> nat option" where
  "digitsValue [] acc = Some acc"
| "digitsValue (c # cs) acc =
     (if 48 \<le> c \<and> c \<le> 57 then digitsValue cs (10 * acc + (unat c - 48)) else None)"

definition Atoi :: "bytes \<Rightarrow> int option" where
  "Atoi s =
     (let (neg, ds) = (case s of [] \<Rightarrow> (False, [])
                       | c # cs \<Rightarrow> if c = 45 then (True, cs) else if c = 43 then (False, cs)
                                   else (False, s))
      in if ds = [] then None
         else case digitsValue ds 0 of
                None \<Rightarrow> None
              | Some n \<Rightarrow>
                  if neg then (if n \<le> 2 ^ 63 then Some (- int n) else None)
                  else (if n < 2 ^ 63 then Some (int n) else None))"

definition EncodeLogRecordPos :: "LogRecordPos \<Rightarrow> bytes" where
  "EncodeLogRecordPos pos =
     PutVarint (uint (Fid pos)) @ PutVarint (Offset pos) @ PutVarint (uint (Size pos))"

definition DecodeLogRecordPos :: "bytes \<Rightarrow> error + LogRecordPos" where
  "DecodeLogRecordPos buffer =
     (let (fileID, n1) = Varint buffer
      in if n1 < 0 \<or> int (length buffer) < n1 then Inl Panic
         else
           (let (offset, n2) = Varint (drop (nat n1) buffer);
                index2 = n1 + n2
            in if index2 < 0 \<or> int (length buffer) < index2 then Inl Panic
               else
                 (let (sz, _) = Varint (drop (nat index2) buffer)
                  in Inr \<lparr>Fid = word_of_int fileID, Offset = offset, Size = word_of_int sz\<rparr>)))"

text \<open>\<open>WriteHintRecord\<close> appends to the hint file a frame with the user key and the
  encoded position.\<close>

definition WriteHintRecord :: "bytes \<Rightarrow> bytes \<Rightarrow> LogRecordPos \<Rightarrow> error + bytes" where
  "WriteHintRecord hint key pos =
     (case EncodeLogRecord \<lparr>Key = key, Value = EncodeLogRecordPos pos, Type = LogRecordNormal\<rparr> of
        Inl e \<Rightarrow> Inl e
      | Inr (encRecord, _) \<Rightarrow> Inr (hint @ encRecord))"

text \<open>The loop of \<open>loadIndexFromHintFile\<close>.\<close>

function scanHint :: "bytes \<Rightarrow> int \<Rightarrow> Database \<Rightarrow> error + Database" where
  "scanHint content offset db =
     (case ReadLogRecord content offset of
        Inl e \<Rightarrow> if e = EOF then Inr db else Inl e
      | Inr (logRecord, sz) \<Rightarrow>
          (case DecodeLogRecordPos (Value logRecord) of
             Inl e \<Rightarrow> Inl e
           | Inr pos \<Rightarrow>
               scanHint content (offset + sz)
                 (db\<lparr>index := snd (BTree_Put (index db) (Key logRecord) pos)\<rparr>)))"
  by pat_completeness auto
termination
proof (relation "measure (\<lambda>(content, offset, db). nat (int (length content) - offset))")
  show "wf (measure (\<lambda>(content, offset, db). nat (int (length content) - offset)))" by simp
next
  fix content :: bytes and offset :: int and db :: Database
    and x2 :: "LogRecord \<times> int" and logRecord sz pos
  assume "ReadLogRecord content offset = Inr x2" and "(logRecord, sz) = x2"
  then have r: "ReadLogRecord content offset = Inr (logRecord, sz)" by simp
  have "offset + 5 \<le> int (length content)" "4 \<le> sz"
    using ReadLogRecord_Inr_bounds [OF r] by simp_all
  then show "((content, offset + sz, db\<lparr>index := snd (BTree_Put (index db) (Key logRecord) pos)\<rparr>),
              (content, offset, db))
               \<in> measure (\<lambda>(content, offset, db). nat (int (length content) - offset))"
    by simp
qed

declare scanHint.simps [simp del]

definition loadIndexFromHintFile :: "Database \<Rightarrow> Directory \<Rightarrow> error + Database" where
  "loadIndexFromHintFile db dir =
     (case hintFile dir of None \<Rightarrow> Inr db | Some content \<Rightarrow> scanHint content 0 db)"

subsection \<open>Open and Close\<close>

text \<open>
  \<open>getNonMergeFileID\<close> reads the single record of the merge-finished file and parses its
  value; opening the file creates it, so an absent file reads as an empty one.
\<close>

definition getNonMergeFileID :: "Directory \<Rightarrow> error + 32 word" where
  "getNonMergeFileID dir =
     (case ReadLogRecord (case mergeFinishedFile dir of None \<Rightarrow> [] | Some c \<Rightarrow> c) 0 of
        Inl e \<Rightarrow> Inl e
      | Inr (record, _) \<Rightarrow>
          (case Atoi (Value record) of
             None \<Rightarrow> Inl IOError
           | Some n \<Rightarrow> Inr (word_of_int n)))"

text \<open>
  \<open>loadMergeFiles\<close>: with a finished merge in the sibling directory, the data files below
  the frontier are removed and every file of the merge directory except the lock and the
  sequence-number file is renamed into the data directory, replacing a file of the same
  name. The merge directory is removed afterwards in every case.
\<close>

definition moveDataFiles :: "(nat \<times> bytes) list \<Rightarrow> (nat \<times> bytes) list \<Rightarrow> (nat \<times> bytes) list" where
  "moveDataFiles moved present =
     filter (\<lambda>(n, c). n \<notin> fst ` set moved) present @ moved"

definition loadMergeFiles :: "Directory \<Rightarrow> Directory option \<Rightarrow> error + Directory" where
  "loadMergeFiles dir mergeDir =
     (case mergeDir of
        None \<Rightarrow> Inr dir
      | Some md \<Rightarrow>
          if mergeFinishedFile md = None then Inr dir
          else
            (case getNonMergeFileID md of
               Inl e \<Rightarrow> Inl e
             | Inr nonMergeFileID \<Rightarrow>
                 Inr (dir\<lparr>dataFiles :=
                             moveDataFiles (dataFiles md)
                               (filter (\<lambda>(n, c). \<not> n < unat nonMergeFileID) (dataFiles dir)),
                          hintFile := (case hintFile md of None \<Rightarrow> hintFile dir | Some h \<Rightarrow> Some h),
                          mergeFinishedFile := mergeFinishedFile md\<rparr>)))"

text \<open>
  \<open>loadDataFiles\<close>: the ids of the data files, sorted; every file is opened, the last one
  is the active file and the others are the immutable ones.
\<close>

fun openAll :: "nat list \<Rightarrow> Database \<Rightarrow> Directory \<Rightarrow> Database \<times> Directory" where
  "openAll [] db dir = (db, dir)"
| "openAll (fid # rest) db dir =
     (let (dataFile, dir') = OpenDataFile dir (of_nat fid)
      in if rest = [] then openAll rest (db\<lparr>activeFile := Some dataFile\<rparr>) dir'
         else openAll rest (db\<lparr>olderFiles := putOlder (olderFiles db) (of_nat fid) dataFile\<rparr>) dir')"

definition loadDataFiles :: "Database \<Rightarrow> Directory \<Rightarrow> Database \<times> Directory" where
  "loadDataFiles db dir =
     (let ids = sort (map fst (dataFiles dir))
      in openAll ids (db\<lparr>fileIDs := ids\<rparr>) dir)"

definition loadIndexFromDataFiles :: "Database \<Rightarrow> Directory \<Rightarrow> error + Database" where
  "loadIndexFromDataFiles db dir =
     (if fileIDs db = [] then Inr db
      else
        (case (if mergeFinishedFile dir = None then Inr (False, 0)
               else (case getNonMergeFileID dir of Inl e \<Rightarrow> Inl e | Inr fid \<Rightarrow> Inr (True, fid))) of
           Inl e \<Rightarrow> Inl e
         | Inr (hasMerge, nonMergeFileID) \<Rightarrow>
             (case replayFiles dir hasMerge nonMergeFileID (fileIDs db)
                     \<lparr>rp_db = db, transactionRecords = (\<lambda>_. []), currentSeqNo = nonTransactionSeqNo\<rparr> of
                Inl e \<Rightarrow> Inl e
              | Inr rp \<Rightarrow> Inr ((rp_db rp)\<lparr>seqNo := currentSeqNo rp\<rparr>))))"

definition checkOptions :: "Options \<Rightarrow> bool" where
  "checkOptions opts \<longleftrightarrow> 0 < DataFileSize opts"

definition Open :: "Options \<Rightarrow> Directory \<Rightarrow> Directory option \<Rightarrow> error + (Database \<times> Directory)" where
  "Open opts dir mergeDir =
     (if \<not> checkOptions opts then Inl InvalidOptions
      else
        (let db = \<lparr>options = opts, fileIDs = [], activeFile = None, olderFiles = [],
                   index = NewBTree, seqNo = 0, isMerging = False, bytesWrite = 0, reclaimSize = 0\<rparr>
         in case loadMergeFiles dir mergeDir of
              Inl e \<Rightarrow> Inl e
            | Inr dir1 \<Rightarrow>
                (let (db2, dir2) = loadDataFiles db dir1
                 in case loadIndexFromHintFile db2 dir2 of
                      Inl e \<Rightarrow> Inl e
                    | Inr db3 \<Rightarrow>
                        (case loadIndexFromDataFiles db3 dir2 of
                           Inl e \<Rightarrow> Inl e
                         | Inr db4 \<Rightarrow> Inr (db4, dir2)))))"

definition seqNoKey :: bytes where
  "seqNoKey = [0x73, 0x65, 0x71, 0x2e, 0x6e, 0x6f]"

definition Close :: "Database \<Rightarrow> Directory \<Rightarrow> error + Directory" where
  "Close db dir =
     (if activeFile db = None then Inr dir
      else
        (case EncodeLogRecord \<lparr>Key = seqNoKey, Value = Itoa (seqNo db), Type = LogRecordNormal\<rparr> of
           Inl e \<Rightarrow> Inl e
         | Inr (encodeRecord, _) \<Rightarrow>
             Inr (dir\<lparr>seqNoFile :=
                         Some ((case seqNoFile dir of None \<Rightarrow> [] | Some c \<Rightarrow> c) @ encodeRecord)\<rparr>)))"
subsection \<open>Merge\<close>

definition mergeFinishedKey :: bytes where
  "mergeFinishedKey = [0x6d, 0x65, 0x72, 0x67, 0x65, 0x2e, 0x66, 0x69, 0x6e, 0x69, 0x73, 0x68, 0x65, 0x64]"

definition emptyDirectory :: Directory where
  "emptyDirectory = \<lparr>dataFiles = [], hintFile = None, mergeFinishedFile = None, seqNoFile = None\<rparr>"

text \<open>
  The loop of \<open>Merge\<close> over one data file: a record whose position is the one the key
  directory holds for its key is appended to the merge engine under the sequence number 0,
  and its new position is written to the hint file of the merge directory.
\<close>

function mergeFile ::
  "Database \<Rightarrow> bytes \<Rightarrow> 32 word \<Rightarrow> int \<Rightarrow> Database \<Rightarrow> Directory \<Rightarrow> error + (Database \<times> Directory)" where
  "mergeFile db content fileID offset mergeDB md =
     (case ReadLogRecord content offset of
        Inl e \<Rightarrow> if e = EOF then Inr (mergeDB, md) else Inl e
      | Inr (logRecord, sz) \<Rightarrow>
          (case parseLogRecordKey (Key logRecord) of
             Inl e \<Rightarrow> Inl e
           | Inr (readKey, _) \<Rightarrow>
               (case (case BTree_Get (index db) readKey of
                        None \<Rightarrow> Inr (mergeDB, md)
                      | Some logRecordPos \<Rightarrow>
                          if Fid logRecordPos = fileID \<and> Offset logRecordPos = offset
                          then (case appendLogRecord mergeDB md
                                       (logRecord\<lparr>Key := logRecordKeyWithSeq readKey nonTransactionSeqNo\<rparr>) of
                                  Inl e \<Rightarrow> Inl e
                                | Inr (pos, mergeDB', md') \<Rightarrow>
                                    (case WriteHintRecord
                                            (case hintFile md' of None \<Rightarrow> [] | Some h \<Rightarrow> h) readKey pos of
                                       Inl e \<Rightarrow> Inl e
                                     | Inr h' \<Rightarrow> Inr (mergeDB', md'\<lparr>hintFile := Some h'\<rparr>)))
                          else Inr (mergeDB, md)) of
                  Inl e \<Rightarrow> Inl e
                | Inr (mergeDB', md') \<Rightarrow> mergeFile db content fileID (offset + sz) mergeDB' md')))"
  by pat_completeness auto
termination
proof (relation "measure (\<lambda>(db, content, fileID, offset, mergeDB, md). nat (int (length content) - offset))")
  show "wf (measure (\<lambda>(db, content, fileID, offset, mergeDB, md). nat (int (length content) - offset)))"
    by simp
next
  fix db :: Database and content :: bytes and fileID :: "32 word" and offset :: int
    and mergeDB :: Database and md :: Directory
    and x2 :: "LogRecord \<times> int" and logRecord sz
    and mergeDB' :: Database and md' :: Directory
  assume "ReadLogRecord content offset = Inr x2" and "(logRecord, sz) = x2"
  then have r: "ReadLogRecord content offset = Inr (logRecord, sz)" by simp
  have "offset + 5 \<le> int (length content)" "4 \<le> sz"
    using ReadLogRecord_Inr_bounds [OF r] by simp_all
  then show "((db, content, fileID, offset + sz, mergeDB', md'), (db, content, fileID, offset, mergeDB, md))
               \<in> measure (\<lambda>(db, content, fileID, offset, mergeDB, md). nat (int (length content) - offset))"
    by simp
qed

declare mergeFile.simps [simp del]

fun mergeFiles ::
  "Database \<Rightarrow> Directory \<Rightarrow> DataFile list \<Rightarrow> Database \<Rightarrow> Directory \<Rightarrow> error + (Database \<times> Directory)" where
  "mergeFiles db dir [] mergeDB md = Inr (mergeDB, md)"
| "mergeFiles db dir (dataFile # rest) mergeDB md =
     (case fileBytes dir (FileID dataFile) of
        None \<Rightarrow> Inl IOError
      | Some content \<Rightarrow>
          (case mergeFile db content (FileID dataFile) 0 mergeDB md of
             Inl e \<Rightarrow> Inl e
           | Inr (mergeDB', md') \<Rightarrow> mergeFiles db dir rest mergeDB' md'))"

text \<open>
  \<open>Merge\<close>. The two comparisons on directory and disk sizes are inputs: \<open>ratioUnreached\<close>
  is the outcome of \<open>float32(reclaimSize)/float32(totalSize) < DataFileMergeRatio\<close> and
  \<open>noSpace\<close> that of \<open>uint64(totalSize-reclaimSize) >= availableDiskSpace\<close>. A call that
  returns nil without an active file, or an error of one of the guards, leaves engine and
  directories as they were; the result \<open>Inr\<close> carries the engine, the data directory and
  the merge directory after a merge that ran to its end. A merge directory from an earlier
  merge is removed and made anew, and the merge engine is opened on it with \<open>SyncWrites\<close>
  off.
\<close>

definition Merge ::
  "Database \<Rightarrow> Directory \<Rightarrow> Directory option \<Rightarrow> bool \<Rightarrow> bool
     \<Rightarrow> error + (Database \<times> Directory \<times> Directory option)" where
  "Merge db dir mergeDir ratioUnreached noSpace =
     (case activeFile db of
        None \<Rightarrow> Inr (db, dir, mergeDir)
      | Some af \<Rightarrow>
          if isMerging db then Inl ErrMergeIsInProgress
          else if ratioUnreached then Inl ErrMergeRatioUnreached
          else if noSpace then Inl ErrNoEnoughSpaceForMerge
          else
            (let (db1, dir1) =
                   setActiveDataFile (db\<lparr>olderFiles := putOlder (olderFiles db) (FileID af) af\<rparr>) dir
             in case activeFile db1 of
                  None \<Rightarrow> Inl Panic
                | Some af1 \<Rightarrow>
                    (let nonMergeFileID = FileID af1;
                         filesToBeMerged = sort_key (\<lambda>f. unat (FileID f)) (map snd (olderFiles db1))
                     in case Open ((options db)\<lparr>SyncWrites := False\<rparr>) emptyDirectory None of
                          Inl e \<Rightarrow> Inl e
                        | Inr (mergeDB, md) \<Rightarrow>
                            (case mergeFiles db1 dir1 filesToBeMerged mergeDB (md\<lparr>hintFile := Some []\<rparr>) of
                               Inl e \<Rightarrow> Inl e
                             | Inr (mergeDB', md') \<Rightarrow>
                                 (case EncodeLogRecord
                                         \<lparr>Key = mergeFinishedKey, Value = Itoa (unat nonMergeFileID),
                                           Type = LogRecordNormal\<rparr> of
                                    Inl e \<Rightarrow> Inl e
                                  | Inr (encodeRecord, _) \<Rightarrow>
                                      Inr (db1, dir1,
                                           Some (md'\<lparr>mergeFinishedFile := Some encodeRecord\<rparr>)))))))"

subsection \<open>The engine iterator\<close>

record IteratorOptions =
  Prefix :: bytes
  Reverse :: bool

record Iterator =
  indexIter :: bTreeIterator
  it_options :: IteratorOptions









definition Iterator_Value :: "Database \<Rightarrow> Directory \<Rightarrow> Iterator \<Rightarrow> error + bytes" where
  "Iterator_Value db dir it =
     (case bTreeIterator_Value (indexIter it) of
        Inl e \<Rightarrow> Inl e
      | Inr logRecordPos \<Rightarrow> getValueByPosition db dir logRecordPos)"

section \<open>The engine iterator yields the keys under a prefix\<close>

subsection \<open>Order of the key directory\<close>

lemma BTree_filter_sorted:
  assumes "sorted_wrt (<) (map fst bt)"
  shows "sorted_wrt (<) (map fst (filter P bt))"
  using assms by (induction bt) auto

lemma insort_key_fresh_strict:
  assumes "sorted_wrt (<) (map fst bt)" and "key \<notin> fst ` set bt"
  shows "sorted_wrt (<) (map fst (insort_key fst (key, pos) bt))"
  using assms
proof (induction bt)
  case Nil
  then show ?case by simp
next
  case (Cons a bt)
  then show ?case by (auto simp: set_insort_key less_le)
qed

lemma BTree_Put_sorted:
  assumes "sorted_wrt (<) (map fst bt)"
  shows "sorted_wrt (<) (map fst (snd (BTree_Put bt key pos)))"
  unfolding BTree_Put_def snd_conv
  by (rule insort_key_fresh_strict [OF BTree_filter_sorted [OF assms]]) auto

lemma BTree_Delete_sorted:
  assumes "sorted_wrt (<) (map fst bt)"
  shows "sorted_wrt (<) (map fst (snd (BTree_Delete bt key)))"
  unfolding BTree_Delete_def snd_conv by (rule BTree_filter_sorted [OF assms])

lemma NewBTree_sorted: "sorted_wrt (<) (map fst NewBTree)"
  by (simp add: NewBTree_def)

subsection \<open>Traversal with the engine iterator\<close>





















section \<open>Committing an empty batch\<close>

text \<open>
  C10. \<open>Commit\<close> of a write batch with no staged write returns without an error and leaves
  the engine and the directory as they were: the sequence number, the data files, the key
  directory and the reclaim counter are those of before, and the batch is unchanged.
\<close>

theorem Commit_empty_batch_noop:
  assumes "pendingWrites wb = []"
  shows "Commit wb db dir = Inr (wb, db, dir)"
  using assms by (simp add: Commit_def)

theorem Commit_empty_batch_noop_witness:
  "pendingWrites (NewWriteBatch \<lparr>MaxBatchNum = 10, SyncOnCommit = True\<rparr>) = []
   \<and> Commit (NewWriteBatch \<lparr>MaxBatchNum = 10, SyncOnCommit = True\<rparr>)
        \<lparr>options = \<lparr>DataFileSize = 64, SyncWrites = False, BytesPerSync = 0\<rparr>, fileIDs = [0],
         activeFile = Some \<lparr>FileID = 0, WriteOffset = 19\<rparr>, olderFiles = [],
         index = [([101, 110, 103, 105, 110, 101], \<lparr>Fid = 0, Offset = 0, Size = 19\<rparr>)],
         seqNo = 3, isMerging = False, bytesWrite = 19, reclaimSize = 0\<rparr>
        \<lparr>dataFiles = [(0, [77, 26, 80, 17, 0, 12, 12, 101, 110, 103, 105, 110, 101, 98, 101, 116, 97, 100, 98])],
         hintFile = None, mergeFinishedFile = None, seqNoFile = None\<rparr>
      = Inr (NewWriteBatch \<lparr>MaxBatchNum = 10, SyncOnCommit = True\<rparr>,
        \<lparr>options = \<lparr>DataFileSize = 64, SyncWrites = False, BytesPerSync = 0\<rparr>, fileIDs = [0],
         activeFile = Some \<lparr>FileID = 0, WriteOffset = 19\<rparr>, olderFiles = [],
         index = [([101, 110, 103, 105, 110, 101], \<lparr>Fid = 0, Offset = 0, Size = 19\<rparr>)],
         seqNo = 3, isMerging = False, bytesWrite = 19, reclaimSize = 0\<rparr>,
        \<lparr>dataFiles = [(0, [77, 26, 80, 17, 0, 12, 12, 101, 110, 103, 105, 110, 101, 98, 101, 116, 97, 100, 98])],
         hintFile = None, mergeFinishedFile = None, seqNoFile = None\<rparr>)"
  using Commit_empty_batch_noop
     [of "NewWriteBatch \<lparr>MaxBatchNum = 10, SyncOnCommit = True\<rparr>"
         "\<lparr>options = \<lparr>DataFileSize = 64, SyncWrites = False, BytesPerSync = 0\<rparr>, fileIDs = [0],
         activeFile = Some \<lparr>FileID = 0, WriteOffset = 19\<rparr>, olderFiles = [],
         index = [([101, 110, 103, 105, 110, 101], \<lparr>Fid = 0, Offset = 0, Size = 19\<rparr>)],
         seqNo = 3, isMerging = False, bytesWrite = 19, reclaimSize = 0\<rparr>"
         "\<lparr>dataFiles = [(0, [77, 26, 80, 17, 0, 12, 12, 101, 110, 103, 105, 110, 101, 98, 101, 116, 97, 100, 98])],
         hintFile = None, mergeFinishedFile = None, seqNoFile = None\<rparr>"]
  by (simp add: NewWriteBatch_def)

section \<open>Rotation of the active file\<close>


lemma setActiveDataFile_active:
  "activeFile (fst (setActiveDataFile db dir))
     = Some \<lparr>FileID = (case activeFile db of None \<Rightarrow> 0 | Some af \<Rightarrow> FileID af + 1), WriteOffset = 0\<rparr>"
  "olderFiles (fst (setActiveDataFile db dir)) = olderFiles db"
  "options (fst (setActiveDataFile db dir)) = options db"
  "index (fst (setActiveDataFile db dir)) = index db"
  by (simp_all add: setActiveDataFile_def OpenDataFile_def Let_def split: prod.splits)

lemma fileBytes_setFileBytes_same:
  "fileBytes (setFileBytes dir fid content) fid = Some content"
proof (cases "unat fid \<in> fst ` set (dataFiles dir)")
  case False
  then have "map_of (dataFiles dir) (unat fid) = None" by (simp add: map_of_eq_None_iff)
  with False show ?thesis by (simp add: fileBytes_def setFileBytes_def map_add_def)
next
  case True
  have "\<And>xs. unat fid \<in> fst ` set xs \<Longrightarrow>
          map_of (map (\<lambda>(n, c). if n = unat fid then (n, content) else (n, c)) xs) (unat fid)
            = Some content"
  proof -
    fix xs :: "(nat \<times> bytes) list"
    show "unat fid \<in> fst ` set xs \<Longrightarrow>
          map_of (map (\<lambda>(n, c). if n = unat fid then (n, content) else (n, c)) xs) (unat fid)
            = Some content"
      by (induction xs) auto
  qed
  with True show ?thesis by (simp add: fileBytes_def setFileBytes_def)
qed

lemma appendLogRecord_unfold:
  assumes "EncodeLogRecord logRecord = Inr (enc, sz)"
  shows "appendLogRecord db dir logRecord =
     (let af = (case activeFile db of None \<Rightarrow> \<lparr>FileID = 0, WriteOffset = 0\<rparr> | Some a \<Rightarrow> a);
          dir1 = (case activeFile db of None \<Rightarrow> snd (OpenDataFile dir 0) | Some a \<Rightarrow> dir);
          rotate = (DataFileSize (options db) < WriteOffset af + sz);
          af2 = (if rotate then \<lparr>FileID = FileID af + 1, WriteOffset = 0\<rparr> else af);
          dir2 = (if rotate then snd (OpenDataFile dir1 (FileID af + 1)) else dir1);
          older = (if rotate then putOlder (olderFiles db) (FileID af) af else olderFiles db);
          written = bytesWrite db + nat sz;
          needSync = (SyncWrites (options db)
                      \<or> (0 < BytesPerSync (options db) \<and> BytesPerSync (options db) \<le> written))
      in Inr (\<lparr>Fid = FileID af2, Offset = WriteOffset af2, Size = word_of_int sz\<rparr>,
              db\<lparr>activeFile := Some (af2\<lparr>WriteOffset := WriteOffset af2 + int (length enc)\<rparr>),
                 olderFiles := older,
                 bytesWrite := (if needSync then 0 else written)\<rparr>,
              snd (DataFile_Write dir2 af2 enc)))"
  using assms
  by (cases "activeFile db")
     (simp_all add: appendLogRecord_def setActiveDataFile_def OpenDataFile_def DataFile_Write_def
        Let_def split: prod.splits)

lemma fileBytes_OpenDataFile_same:
  "fileBytes (snd (OpenDataFile dir fid)) fid \<noteq> None"
  by (cases "fileBytes dir fid") (simp_all add: OpenDataFile_def fileBytes_setFileBytes_same)

lemma fileBytes_DataFile_Write_same:
  "fileBytes (snd (DataFile_Write dir df buffer)) (FileID df) \<noteq> None"
  by (simp add: DataFile_Write_def fileBytes_setFileBytes_same)






section \<open>Recovery as a replay of the records read\<close>

subsection \<open>The records a scan reads\<close>

text \<open>
  The reads of the scan loop on their own: the records of a file from an offset, each with
  the position the loop gives it, up to \<open>io.EOF\<close>, and the offset reached.
\<close>

function readAll :: "bytes \<Rightarrow> 32 word \<Rightarrow> int \<Rightarrow> error + ((LogRecord \<times> LogRecordPos) list \<times> int)" where
  "readAll content fileID offset =
     (case ReadLogRecord content offset of
        Inl e \<Rightarrow> if e = EOF then Inr ([], offset) else Inl e
      | Inr (logRecord, sz) \<Rightarrow>
          (case readAll content fileID (offset + sz) of
             Inl e \<Rightarrow> Inl e
           | Inr (records, reached) \<Rightarrow>
               Inr ((logRecord, \<lparr>Fid = fileID, Offset = offset, Size = word_of_int sz\<rparr>) # records,
                    reached)))"
  by pat_completeness auto
termination
proof (relation "measure (\<lambda>(content, fileID, offset). nat (int (length content) - offset))")
  show "wf (measure (\<lambda>(content, fileID, offset). nat (int (length content) - offset)))" by simp
next
  fix content :: bytes and fileID :: "32 word" and offset :: int
    and x2 :: "LogRecord \<times> int" and logRecord sz
  assume "ReadLogRecord content offset = Inr x2" and "(logRecord, sz) = x2"
  then have r: "ReadLogRecord content offset = Inr (logRecord, sz)" by simp
  have "offset + 5 \<le> int (length content)" "4 \<le> sz"
    using ReadLogRecord_Inr_bounds [OF r] by simp_all
  then show "((content, fileID, offset + sz), (content, fileID, offset))
               \<in> measure (\<lambda>(content, fileID, offset). nat (int (length content) - offset))"
    by simp
qed

declare readAll.simps [simp del]

text \<open>The loop body \<open>replayRecord\<close> over a list of records with their positions.\<close>

fun replayRecords :: "(LogRecord \<times> LogRecordPos) list \<Rightarrow> Replay \<Rightarrow> error + Replay" where
  "replayRecords [] rp = Inr rp"
| "replayRecords ((logRecord, logRecordPos) # rest) rp =
     (case replayRecord rp logRecord logRecordPos of
        Inl e \<Rightarrow> Inl e
      | Inr rp' \<Rightarrow> replayRecords rest rp')"

lemma replayRecords_append:
  "replayRecords (xs @ ys) rp =
     (case replayRecords xs rp of Inl e \<Rightarrow> Inl e | Inr rp' \<Rightarrow> replayRecords ys rp')"
  by (induction xs rp rule: replayRecords.induct) (auto split: sum.splits)

lemma scanFile_by_readAll:
  "readAll content fileID offset = Inr (records, reached) \<Longrightarrow>
   scanFile content fileID offset rp =
     (case replayRecords records rp of Inl e \<Rightarrow> Inl e | Inr rp' \<Rightarrow> Inr (rp', reached))"
proof (induction content fileID offset arbitrary: records rp rule: readAll.induct)
  case (1 content fileID offset)
  show ?case
  proof (cases "ReadLogRecord content offset")
    case (Inl e)
    with "1.prems" have "e = EOF" "records = []" "reached = offset"
      by (auto simp: readAll.simps [of content fileID offset] split: if_splits)
    with Inl show ?thesis by (simp add: scanFile.simps [of content fileID offset])
  next
    case (Inr x)
    obtain logRecord sz where x: "x = (logRecord, sz)" by (cases x)
    let ?pos = "\<lparr>Fid = fileID, Offset = offset, Size = word_of_int sz\<rparr>"
    from "1.prems" Inr x obtain rest where
      ra: "readAll content fileID (offset + sz) = Inr (rest, reached)"
      and rs: "records = (logRecord, ?pos) # rest"
      by (auto simp: readAll.simps [of content fileID offset] split: sum.splits)
    show ?thesis
    proof (cases "replayRecord rp logRecord ?pos")
      case (Inl e)
      with Inr x rs show ?thesis by (simp add: scanFile.simps [of content fileID offset])
    next
      case (Inr rp1)
      have "scanFile content fileID (offset + sz) rp1 =
              (case replayRecords rest rp1 of Inl e \<Rightarrow> Inl e | Inr rp' \<Rightarrow> Inr (rp', reached))"
        using "1.IH" [OF \<open>ReadLogRecord content offset = Inr x\<close> x [symmetric] ra] .
      with Inr \<open>ReadLogRecord content offset = Inr x\<close> x rs show ?thesis
        by (simp add: scanFile.simps [of content fileID offset])
    qed
  qed
qed

lemma scanFile_Inr_readAll:
  "scanFile content fileID offset rp = Inr (rp', reached) \<Longrightarrow>
   \<exists>records. readAll content fileID offset = Inr (records, reached)"
proof (induction content fileID offset rp rule: scanFile.induct)
  case (1 content fileID offset rp)
  show ?case
  proof (cases "ReadLogRecord content offset")
    case (Inl e)
    with "1.prems" show ?thesis
      by (auto simp: scanFile.simps [of content fileID offset] readAll.simps [of content fileID offset]
               split: if_splits)
  next
    case (Inr x)
    obtain logRecord sz where x: "x = (logRecord, sz)" by (cases x)
    let ?pos = "\<lparr>Fid = fileID, Offset = offset, Size = word_of_int sz\<rparr>"
    from "1.prems" Inr x obtain rp1 where
      rr: "replayRecord rp logRecord ?pos = Inr rp1"
      and sc: "scanFile content fileID (offset + sz) rp1 = Inr (rp', reached)"
      by (auto simp: scanFile.simps [of content fileID offset] split: sum.splits)
    from "1.IH" [OF Inr x [symmetric] rr sc] obtain rest where
      "readAll content fileID (offset + sz) = Inr (rest, reached)" by blast
    with Inr x show ?thesis by (simp add: readAll.simps [of content fileID offset])
  qed
qed

text \<open>
  The reads of \<open>loadIndexFromDataFiles\<close> over the files, in the order of the file ids, with the
  handles of the engine.
\<close>

fun readFiles ::
  "Directory \<Rightarrow> Database \<Rightarrow> bool \<Rightarrow> 32 word \<Rightarrow> nat list \<Rightarrow> error + (LogRecord \<times> LogRecordPos) list" where
  "readFiles dir db hasMerge nonMergeFileID [] = Inr []"
| "readFiles dir db hasMerge nonMergeFileID (fid # rest) =
     (let fileID = (of_nat fid :: 32 word)
      in if hasMerge \<and> fileID < nonMergeFileID
         then readFiles dir db hasMerge nonMergeFileID rest
         else
           (case activeFile db of
              None \<Rightarrow> Inl Panic
            | Some af \<Rightarrow>
                (case (if fileID = FileID af then Some af else map_of (olderFiles db) fileID) of
                   None \<Rightarrow> Inl Panic
                 | Some dataFile \<Rightarrow>
                     (case fileBytes dir (FileID dataFile) of
                        None \<Rightarrow> Inl IOError
                      | Some content \<Rightarrow>
                          (case readAll content fileID 0 of
                             Inl e \<Rightarrow> Inl e
                           | Inr (records, _) \<Rightarrow>
                               (case readFiles dir db hasMerge nonMergeFileID rest of
                                  Inl e \<Rightarrow> Inl e
                                | Inr others \<Rightarrow> Inr (records @ others)))))))"

lemma addReclaim_frame [simp]:
  "activeFile (addReclaim db p) = activeFile db"
  "olderFiles (addReclaim db p) = olderFiles db"
  "index (addReclaim db p) = index db"
  "options (addReclaim db p) = options db"
  "fileIDs (addReclaim db p) = fileIDs db"
  "seqNo (addReclaim db p) = seqNo db"
  "isMerging (addReclaim db p) = isMerging db"
  by (simp_all add: addReclaim_def split: option.splits)

lemma updateIndex_frame [simp]:
  "activeFile (updateIndex db key tp pos) = activeFile db"
  "olderFiles (updateIndex db key tp pos) = olderFiles db"
  "options (updateIndex db key tp pos) = options db"
  "fileIDs (updateIndex db key tp pos) = fileIDs db"
  "seqNo (updateIndex db key tp pos) = seqNo db"
  "isMerging (updateIndex db key tp pos) = isMerging db"
  by (simp_all add: updateIndex_def Let_def split: prod.splits)

lemma applyTxn_frame [simp]:
  "activeFile (applyTxn db txn) = activeFile db"
  "olderFiles (applyTxn db txn) = olderFiles db"
  "options (applyTxn db txn) = options db"
  "fileIDs (applyTxn db txn) = fileIDs db"
  "seqNo (applyTxn db txn) = seqNo db"
  "isMerging (applyTxn db txn) = isMerging db"
  by (induction db txn rule: applyTxn.induct) simp_all

lemma replayRecord_frame:
  assumes "replayRecord rp logRecord logRecordPos = Inr rp'"
  shows "activeFile (rp_db rp') = activeFile (rp_db rp)"
    and "olderFiles (rp_db rp') = olderFiles (rp_db rp)"
    and "options (rp_db rp') = options (rp_db rp)"
    and "fileIDs (rp_db rp') = fileIDs (rp_db rp)"
  using assms
  by (auto simp: replayRecord_def Let_def split: sum.splits prod.splits if_splits)

lemma replayRecords_frame:
  "replayRecords records rp = Inr rp' \<Longrightarrow>
     activeFile (rp_db rp') = activeFile (rp_db rp)
     \<and> olderFiles (rp_db rp') = olderFiles (rp_db rp)
     \<and> options (rp_db rp') = options (rp_db rp)
     \<and> fileIDs (rp_db rp') = fileIDs (rp_db rp)"
proof (induction records rp rule: replayRecords.induct)
  case (1 rp)
  then show ?case by simp
next
  case (2 logRecord logRecordPos rest rp)
  from "2.prems" obtain rp1 where
    a: "replayRecord rp logRecord logRecordPos = Inr rp1" and b: "replayRecords rest rp1 = Inr rp'"
    by (auto split: sum.splits)
  from "2.IH" [OF a b] replayRecord_frame [OF a] show ?case by simp
qed

lemma readFiles_handles:
  "activeFile db = activeFile db' \<Longrightarrow> olderFiles db = olderFiles db' \<Longrightarrow>
   readFiles dir db hasMerge nonMergeFileID ids = readFiles dir db' hasMerge nonMergeFileID ids"
proof (induction ids)
  case Nil
  show ?case by simp
next
  case (Cons fid rest)
  have ih: "readFiles dir db hasMerge nonMergeFileID rest = readFiles dir db' hasMerge nonMergeFileID rest"
    by (rule Cons.IH [OF Cons.prems])
  show ?case unfolding readFiles.simps ih Cons.prems by (rule refl)
qed

lemma replayFiles_Inr_readFiles:
  "replayFiles dir hasMerge nonMergeFileID ids rp = Inr rp' \<Longrightarrow>
   \<exists>records rp'' a.
      readFiles dir (rp_db rp) hasMerge nonMergeFileID ids = Inr records
      \<and> replayRecords records rp = Inr rp''
      \<and> rp' = rp''\<lparr>rp_db := (rp_db rp'')\<lparr>activeFile := a\<rparr>\<rparr>"
proof (induction ids arbitrary: rp)
  case Nil
  then have "rp' = rp" by simp
  then have "rp' = rp\<lparr>rp_db := (rp_db rp)\<lparr>activeFile := activeFile (rp_db rp)\<rparr>\<rparr>" by simp
  then show ?case by (intro exI [of _ "[]"] exI [of _ rp] exI [of _ "activeFile (rp_db rp)"]) simp
next
  case (Cons fid rest)
  let ?fileID = "of_nat fid :: 32 word"
  show ?case
  proof (cases "hasMerge \<and> ?fileID < nonMergeFileID")
    case True
    with Cons.prems have "replayFiles dir hasMerge nonMergeFileID rest rp = Inr rp'" by simp
    from Cons.IH [OF this] True show ?thesis by simp
  next
    case False
    from Cons.prems False obtain af where af: "activeFile (rp_db rp) = Some af"
      by (cases "activeFile (rp_db rp)") (auto simp: Let_def)
    let ?h = "if ?fileID = FileID af then Some af else map_of (olderFiles (rp_db rp)) ?fileID"
    from Cons.prems False af obtain dataFile where h: "?h = Some dataFile"
      by (cases ?h) (auto simp: Let_def)
    from Cons.prems False af h obtain content where c: "fileBytes dir (FileID dataFile) = Some content"
      by (cases "fileBytes dir (FileID dataFile)") (auto simp: Let_def)
    from Cons.prems False af h c obtain rp1 reached where
      sc: "scanFile content ?fileID 0 rp = Inr (rp1, reached)"
      by (cases "scanFile content ?fileID 0 rp") (auto simp: Let_def)
    let ?next = "if rest = []
                 then rp1\<lparr>rp_db := (rp_db rp1)\<lparr>activeFile := Some (af\<lparr>WriteOffset := reached\<rparr>)\<rparr>\<rparr>
                 else rp1"
    from Cons.prems False af h c sc
    have rest: "replayFiles dir hasMerge nonMergeFileID rest ?next = Inr rp'"
      by (simp add: Let_def)
    from scanFile_Inr_readAll [OF sc] obtain records where
      ra: "readAll content ?fileID 0 = Inr (records, reached)" by blast
    from scanFile_by_readAll [OF ra, of rp] sc have rr: "replayRecords records rp = Inr rp1"
      by (auto split: sum.splits)
    show ?thesis
    proof (cases "rest = []")
      case True
      with rest have "rp' = rp1\<lparr>rp_db := (rp_db rp1)\<lparr>activeFile := Some (af\<lparr>WriteOffset := reached\<rparr>)\<rparr>\<rparr>"
        by simp
      moreover have "readFiles dir (rp_db rp) hasMerge nonMergeFileID (fid # rest) = Inr records"
        using False af h c ra True by (auto simp: Let_def)
      ultimately show ?thesis using rr by blast
    next
      case nonempty: False
      with rest have "replayFiles dir hasMerge nonMergeFileID rest rp1 = Inr rp'" by simp
      from Cons.IH [OF this] obtain others rp'' a where
        o: "readFiles dir (rp_db rp1) hasMerge nonMergeFileID rest = Inr others"
        and r2: "replayRecords others rp1 = Inr rp''"
        and e: "rp' = rp''\<lparr>rp_db := (rp_db rp'')\<lparr>activeFile := a\<rparr>\<rparr>" by blast
      from replayRecords_frame [OF rr]
      have "readFiles dir (rp_db rp1) hasMerge nonMergeFileID rest
            = readFiles dir (rp_db rp) hasMerge nonMergeFileID rest"
        by (intro readFiles_handles) simp_all
      with o have "readFiles dir (rp_db rp) hasMerge nonMergeFileID (fid # rest) = Inr (records @ others)"
        using False af h c ra by (auto simp: Let_def)
      moreover have "replayRecords (records @ others) rp = Inr rp''"
        using rr r2 by (simp add: replayRecords_append)
      ultimately show ?thesis using e by blast
    qed
  qed
qed

subsection \<open>Which records the replay applies\<close>

text \<open>
  The sequence number and the user key that \<open>parseLogRecordKey\<close> takes from the key of a
  record on disk.
\<close>

definition recSeq :: "LogRecord \<Rightarrow> nat" where
  "recSeq r = fst (Uvarint (Key r))"

definition recKey :: "LogRecord \<Rightarrow> bytes" where
  "recKey r = drop (nat (snd (Uvarint (Key r)))) (Key r)"

lemma parseLogRecordKey_Inr:
  "parseLogRecordKey (Key r) = Inr (k, s) \<Longrightarrow> k = recKey r \<and> s = recSeq r"
  by (auto simp: parseLogRecordKey_def recKey_def recSeq_def Let_def split: prod.splits if_splits)

text \<open>The update of the key directory for one record read at a position.\<close>

definition applyEntry :: "Database \<Rightarrow> LogRecord \<times> LogRecordPos \<Rightarrow> Database" where
  "applyEntry db e = updateIndex db (recKey (fst e)) (Type (fst e)) (snd e)"

text \<open>
  In words, for a log given as the list of its records in the order of the replay. Record
  \<open>i\<close> is a terminator of \<open>s\<close> when it carries \<open>s\<close> and has the type of a batch terminator.
  The open batch of \<open>s\<close> before position \<open>n\<close> holds the records before \<open>n\<close> that carry \<open>s\<close>, are
  no terminators and have no terminator of \<open>s\<close> between them and \<open>n\<close>. A record is committed
  when it carries the sequence number 0, or is no terminator and a terminator of its
  sequence number stands behind it. The order of application: a record of sequence number
  0 at its own place, and at every terminator the open batch before it.
\<close>

definition terminator :: "(LogRecord \<times> LogRecordPos) list \<Rightarrow> nat \<Rightarrow> nat \<Rightarrow> bool" where
  "terminator log s i \<longleftrightarrow> recSeq (fst (log ! i)) = s \<and> Type (fst (log ! i)) = LogRecordTxnFinished"

definition openBatch :: "(LogRecord \<times> LogRecordPos) list \<Rightarrow> nat \<Rightarrow> nat \<Rightarrow> nat list" where
  "openBatch log n s =
     filter (\<lambda>j. recSeq (fst (log ! j)) = s \<and> Type (fst (log ! j)) \<noteq> LogRecordTxnFinished
                 \<and> (\<forall>m \<in> {j<..<n}. \<not> terminator log s m))
       [0..<n]"

definition committed :: "(LogRecord \<times> LogRecordPos) list \<Rightarrow> nat \<Rightarrow> bool" where
  "committed log j \<longleftrightarrow>
     j < length log
     \<and> (recSeq (fst (log ! j)) = 0
        \<or> (Type (fst (log ! j)) \<noteq> LogRecordTxnFinished
            \<and> (\<exists>i \<in> {j<..<length log}. terminator log (recSeq (fst (log ! j))) i)))"

definition appliedAt :: "(LogRecord \<times> LogRecordPos) list \<Rightarrow> nat \<Rightarrow> nat list" where
  "appliedAt log i =
     (if recSeq (fst (log ! i)) = 0 then [i]
      else if Type (fst (log ! i)) = LogRecordTxnFinished then openBatch log i (recSeq (fst (log ! i)))
      else [])"

definition appliedOrder :: "(LogRecord \<times> LogRecordPos) list \<Rightarrow> nat list" where
  "appliedOrder log = concat (map (appliedAt log) [0..<length log])"

lemma terminator_append:
  "i < length log \<Longrightarrow> terminator (log @ rest) s i = terminator log s i"
  by (simp add: terminator_def nth_append)

lemma openBatch_append:
  assumes "n \<le> length log"
  shows "openBatch (log @ rest) n s = openBatch log n s"
  unfolding openBatch_def
proof (rule filter_cong [OF refl])
  fix j assume "j \<in> set [0..<n]"
  then have j: "j < length log" using assms by simp
  have "(\<forall>m \<in> {j<..<n}. \<not> terminator (log @ rest) s m) = (\<forall>m \<in> {j<..<n}. \<not> terminator log s m)"
    using assms by (intro ball_cong refl) (simp add: terminator_append)
  with j show "(recSeq (fst ((log @ rest) ! j)) = s
                 \<and> Type (fst ((log @ rest) ! j)) \<noteq> LogRecordTxnFinished
                 \<and> (\<forall>m \<in> {j<..<n}. \<not> terminator (log @ rest) s m))
             = (recSeq (fst (log ! j)) = s \<and> Type (fst (log ! j)) \<noteq> LogRecordTxnFinished
                 \<and> (\<forall>m \<in> {j<..<n}. \<not> terminator log s m))"
    by (simp add: nth_append)
qed

lemma appliedAt_append:
  "i < length log \<Longrightarrow> appliedAt (log @ rest) i = appliedAt log i"
  by (simp add: appliedAt_def nth_append openBatch_append)

lemma appliedOrder_snoc:
  "appliedOrder (log @ [x]) = appliedOrder log @ appliedAt (log @ [x]) (length log)"
proof -
  have m: "map (appliedAt (log @ [x])) [0..<length log] = map (appliedAt log) [0..<length log]"
    by (rule map_cong [OF refl]) (simp add: appliedAt_append)
  have "appliedOrder (log @ [x])
        = concat (map (appliedAt (log @ [x])) [0..<length log]) @ appliedAt (log @ [x]) (length log)"
    by (simp add: appliedOrder_def)
  then show ?thesis unfolding m appliedOrder_def .
qed

lemma openBatch_set_less: "j \<in> set (openBatch log n s) \<Longrightarrow> j < n"
  by (simp add: openBatch_def)

lemma appliedOrder_set_less: "j \<in> set (appliedOrder log) \<Longrightarrow> j < length log"
  by (auto simp: appliedOrder_def appliedAt_def split: if_splits dest: openBatch_set_less)

lemma openBatch_Suc:
  "openBatch log (Suc n) s =
     (if terminator log s n then []
      else openBatch log n s
           @ (if recSeq (fst (log ! n)) = s \<and> Type (fst (log ! n)) \<noteq> LogRecordTxnFinished
              then [n] else []))"
proof -
  let ?c = "\<lambda>n j. recSeq (fst (log ! j)) = s \<and> Type (fst (log ! j)) \<noteq> LogRecordTxnFinished
                 \<and> (\<forall>m \<in> {j<..<n}. \<not> terminator log s m)"
  have split: "\<And>j. j < n \<Longrightarrow> {j<..<Suc n} = insert n {j<..<n}" by auto
  have "{n<..<Suc n} = {}" by auto
  then have last: "?c (Suc n) n \<longleftrightarrow> recSeq (fst (log ! n)) = s \<and> Type (fst (log ! n)) \<noteq> LogRecordTxnFinished"
    by simp
  show ?thesis
  proof (cases "terminator log s n")
    case True
    have "filter (?c (Suc n)) [0..<n] = []"
      using True by (auto simp: filter_empty_conv split)
    moreover have "\<not> ?c (Suc n) n" using True by (simp add: terminator_def)
    ultimately show ?thesis using True by (simp add: openBatch_def)
  next
    case False
    have "filter (?c (Suc n)) [0..<n] = filter (?c n) [0..<n]"
      using False by (intro filter_cong refl) (simp add: split)
    with False last show ?thesis by (simp add: openBatch_def)
  qed
qed

text \<open>A record as the replay buffers it: with the user key in place of the key on disk.\<close>

definition buffered :: "LogRecord \<times> LogRecordPos \<Rightarrow> LogRecord \<times> LogRecordPos" where
  "buffered e = ((fst e)\<lparr>Key := recKey (fst e)\<rparr>, snd e)"

lemma applyTxn_buffered:
  "applyTxn db (map buffered es) = foldl applyEntry db es"
proof (induction es arbitrary: db)
  case Nil
  show ?case by simp
next
  case (Cons e es)
  obtain r pos where e: "e = (r, pos)" by (cases e)
  show ?case using Cons.IH by (simp add: e buffered_def applyEntry_def)
qed

lemma replayRecord_cases:
  assumes "replayRecord rp r pos = Inr rp'"
  shows "recSeq r = 0 \<Longrightarrow>
           rp_db rp' = applyEntry (rp_db rp) (r, pos) \<and> transactionRecords rp' = transactionRecords rp"
    and "recSeq r \<noteq> 0 \<Longrightarrow> Type r = LogRecordTxnFinished \<Longrightarrow>
           rp_db rp' = applyTxn (rp_db rp) (transactionRecords rp (recSeq r))
           \<and> transactionRecords rp' = (transactionRecords rp)(recSeq r := [])"
    and "recSeq r \<noteq> 0 \<Longrightarrow> Type r \<noteq> LogRecordTxnFinished \<Longrightarrow>
           rp_db rp' = rp_db rp
           \<and> transactionRecords rp'
               = (transactionRecords rp)(recSeq r := transactionRecords rp (recSeq r) @ [buffered (r, pos)])"
proof -
  obtain k s where p: "parseLogRecordKey (Key r) = Inr (k, s)"
    using assms by (cases "parseLogRecordKey (Key r)") (auto simp: replayRecord_def)
  from parseLogRecordKey_Inr [OF p] have ks: "k = recKey r" "s = recSeq r" by simp_all
  show "recSeq r = 0 \<Longrightarrow>
           rp_db rp' = applyEntry (rp_db rp) (r, pos) \<and> transactionRecords rp' = transactionRecords rp"
    using assms p ks
    by (auto simp: replayRecord_def Let_def applyEntry_def nonTransactionSeqNo_def)
  show "recSeq r \<noteq> 0 \<Longrightarrow> Type r = LogRecordTxnFinished \<Longrightarrow>
           rp_db rp' = applyTxn (rp_db rp) (transactionRecords rp (recSeq r))
           \<and> transactionRecords rp' = (transactionRecords rp)(recSeq r := [])"
    using assms p ks
    by (auto simp: replayRecord_def Let_def nonTransactionSeqNo_def)
  show "recSeq r \<noteq> 0 \<Longrightarrow> Type r \<noteq> LogRecordTxnFinished \<Longrightarrow>
           rp_db rp' = rp_db rp
           \<and> transactionRecords rp'
               = (transactionRecords rp)(recSeq r := transactionRecords rp (recSeq r) @ [buffered (r, pos)])"
    using assms p ks
    by (auto simp: replayRecord_def Let_def nonTransactionSeqNo_def buffered_def)
qed

lemma map_nth_snoc:
  assumes "\<And>j. j \<in> set js \<Longrightarrow> j < length log"
  shows "map (\<lambda>j. f ((log @ [x]) ! j)) js = map (\<lambda>j. f (log ! j)) js"
  by (rule map_cong [OF refl]) (simp add: nth_append assms)

lemma replayRecords_applied:
  assumes "transactionRecords rp0 = (\<lambda>_. [])"
  shows "replayRecords log rp0 = Inr rp \<Longrightarrow>
           rp_db rp = foldl applyEntry (rp_db rp0) (map (\<lambda>j. log ! j) (appliedOrder log))
           \<and> (\<forall>s. s \<noteq> 0 \<longrightarrow>
                 transactionRecords rp s = map (\<lambda>j. buffered (log ! j)) (openBatch log (length log) s))"
proof (induction log arbitrary: rp rule: rev_induct)
  case Nil
  then show ?case using assms by (simp add: appliedOrder_def openBatch_def)
next
  case (snoc x log)
  obtain r pos where x: "x = (r, pos)" by (cases x)
  let ?n = "length log"
  from snoc.prems obtain rp1 where r1: "replayRecords log rp0 = Inr rp1"
    and rr: "replayRecord rp1 r pos = Inr rp"
    by (auto simp: replayRecords_append x split: sum.splits)
  from snoc.IH [OF r1] have
    db1: "rp_db rp1 = foldl applyEntry (rp_db rp0) (map (\<lambda>j. log ! j) (appliedOrder log))"
    and tx1: "\<And>s. s \<noteq> 0 \<Longrightarrow>
                transactionRecords rp1 s = map (\<lambda>j. buffered (log ! j)) (openBatch log ?n s)"
    by simp_all
  have xn: "(log @ [x]) ! ?n = x" by simp
  have old: "map (\<lambda>j. (log @ [x]) ! j) (appliedOrder log) = map (\<lambda>j. log ! j) (appliedOrder log)"
    by (rule map_nth_snoc [where f = "\<lambda>e. e"]) (rule appliedOrder_set_less)
  have ob: "\<And>s. map (\<lambda>j. f ((log @ [x]) ! j)) (openBatch log ?n s)
                 = map (\<lambda>j. f (log ! j)) (openBatch log ?n s)" for f :: "LogRecord \<times> LogRecordPos \<Rightarrow> 'b"
    by (rule map_nth_snoc) (rule openBatch_set_less)
  have obn: "\<And>s. openBatch (log @ [x]) ?n s = openBatch log ?n s"
    by (simp add: openBatch_append)
  have obs: "\<And>s. openBatch (log @ [x]) (Suc ?n) s =
     (if terminator (log @ [x]) s ?n then []
      else openBatch log ?n s
           @ (if recSeq r = s \<and> Type r \<noteq> LogRecordTxnFinished then [?n] else []))"
    unfolding openBatch_Suc [of "log @ [x]" ?n] obn xn by (simp add: x)
  have isterm: "\<And>s. terminator (log @ [x]) s ?n \<longleftrightarrow> recSeq r = s \<and> Type r = LogRecordTxnFinished"
    unfolding terminator_def xn by (simp add: x)
  consider (zero) "recSeq r = 0"
    | (fin) "recSeq r \<noteq> 0" "Type r = LogRecordTxnFinished"
    | (rec) "recSeq r \<noteq> 0" "Type r \<noteq> LogRecordTxnFinished" by blast
  then show ?case
  proof cases
    case zero
    from replayRecord_cases(1) [OF rr zero]
    have d: "rp_db rp = applyEntry (rp_db rp1) x"
      and t: "transactionRecords rp = transactionRecords rp1" by (simp_all add: x)
    have ap: "appliedAt (log @ [x]) ?n = [?n]"
      unfolding appliedAt_def xn using zero by (simp add: x)
    have "rp_db rp = foldl applyEntry (rp_db rp0) (map (\<lambda>j. (log @ [x]) ! j) (appliedOrder (log @ [x])))"
      by (simp add: appliedOrder_snoc ap old d db1)
    moreover have "\<forall>s. s \<noteq> 0 \<longrightarrow> transactionRecords rp s
           = map (\<lambda>j. buffered ((log @ [x]) ! j)) (openBatch (log @ [x]) (length (log @ [x])) s)"
      using zero by (auto simp: t tx1 obs isterm ob)
    ultimately show ?thesis by blast
  next
    case fin
    from replayRecord_cases(2) [OF rr fin]
    have d: "rp_db rp = applyTxn (rp_db rp1) (transactionRecords rp1 (recSeq r))"
      and t: "transactionRecords rp = (transactionRecords rp1)(recSeq r := [])" by simp_all
    have ap: "appliedAt (log @ [x]) ?n = openBatch log ?n (recSeq r)"
      unfolding appliedAt_def xn obn using fin by (simp add: x)
    have "transactionRecords rp1 (recSeq r) = map buffered (map (\<lambda>j. log ! j) (openBatch log ?n (recSeq r)))"
      using tx1 [OF fin(1)] by (simp add: comp_def)
    then have d': "rp_db rp = foldl applyEntry (rp_db rp1) (map (\<lambda>j. log ! j) (openBatch log ?n (recSeq r)))"
      unfolding d by (simp only: applyTxn_buffered)
    have "rp_db rp = foldl applyEntry (rp_db rp0) (map (\<lambda>j. (log @ [x]) ! j) (appliedOrder (log @ [x])))"
      by (simp add: appliedOrder_snoc ap old d' db1 ob [of "\<lambda>e. e"])
    moreover have "\<forall>s. s \<noteq> 0 \<longrightarrow> transactionRecords rp s
           = map (\<lambda>j. buffered ((log @ [x]) ! j)) (openBatch (log @ [x]) (length (log @ [x])) s)"
      using fin by (auto simp: t tx1 obs isterm ob)
    ultimately show ?thesis by blast
  next
    case rec
    from replayRecord_cases(3) [OF rr rec]
    have d: "rp_db rp = rp_db rp1"
      and t: "transactionRecords rp
               = (transactionRecords rp1)(recSeq r := transactionRecords rp1 (recSeq r) @ [buffered x])"
      by (simp_all add: x)
    have ap: "appliedAt (log @ [x]) ?n = []"
      unfolding appliedAt_def xn using rec by (simp add: x)
    have "rp_db rp = foldl applyEntry (rp_db rp0) (map (\<lambda>j. (log @ [x]) ! j) (appliedOrder (log @ [x])))"
      by (simp add: appliedOrder_snoc ap old d db1)
    moreover have "\<forall>s. s \<noteq> 0 \<longrightarrow> transactionRecords rp s
           = map (\<lambda>j. buffered ((log @ [x]) ! j)) (openBatch (log @ [x]) (length (log @ [x])) s)"
      using rec by (auto simp: t tx1 obs isterm ob)
    ultimately show ?thesis by blast
  qed
qed

lemma applied_iff_committed:
  "j \<in> set (appliedOrder log) \<longleftrightarrow> committed log j"
proof
  assume "j \<in> set (appliedOrder log)"
  then obtain i where i: "i < length log" and j: "j \<in> set (appliedAt log i)"
    by (auto simp: appliedOrder_def)
  show "committed log j"
  proof (cases "recSeq (fst (log ! i)) = 0")
    case True
    with j have "j = i" by (simp add: appliedAt_def)
    with True i show ?thesis by (simp add: committed_def)
  next
    case False
    with j have fin: "Type (fst (log ! i)) = LogRecordTxnFinished"
      and ob: "j \<in> set (openBatch log i (recSeq (fst (log ! i))))"
      by (auto simp: appliedAt_def split: if_splits)
    from ob have "j < i" "recSeq (fst (log ! j)) = recSeq (fst (log ! i))"
      "Type (fst (log ! j)) \<noteq> LogRecordTxnFinished"
      by (simp_all add: openBatch_def)
    moreover from this fin have "terminator log (recSeq (fst (log ! j))) i"
      by (simp add: terminator_def)
    ultimately show ?thesis using i by (auto simp: committed_def)
  qed
next
  assume c: "committed log j"
  then have jl: "j < length log" by (simp add: committed_def)
  show "j \<in> set (appliedOrder log)"
  proof (cases "recSeq (fst (log ! j)) = 0")
    case True
    then have "j \<in> set (appliedAt log j)" by (simp add: appliedAt_def)
    with jl show ?thesis by (auto simp: appliedOrder_def)
  next
    case False
    let ?s = "recSeq (fst (log ! j))"
    let ?T = "\<lambda>i. j < i \<and> terminator log ?s i"
    from c False have nf: "Type (fst (log ! j)) \<noteq> LogRecordTxnFinished"
      and ex: "\<exists>i \<in> {j<..<length log}. terminator log ?s i"
      by (auto simp: committed_def)
    then obtain i where i: "j < i" "i < length log" "terminator log ?s i" by auto
    define i0 where "i0 = (LEAST i. ?T i)"
    have t0: "?T i0" unfolding i0_def by (rule LeastI [of ?T i]) (simp add: i)
    have le: "i0 \<le> i" unfolding i0_def by (rule Least_le) (simp add: i)
    have least: "\<And>m. m < i0 \<Longrightarrow> \<not> ?T m" unfolding i0_def by (rule not_less_Least)
    have "j \<in> set (openBatch log i0 ?s)"
      using t0 nf least by (auto simp: openBatch_def)
    moreover have "appliedAt log i0 = openBatch log i0 ?s"
      using t0 False by (simp add: appliedAt_def terminator_def)
    ultimately have "j \<in> set (appliedAt log i0)" by simp
    moreover have "i0 < length log" using le i by simp
    ultimately show ?thesis by (auto simp: appliedOrder_def)
  qed
qed

lemma appliedOrder_distinct: "distinct (appliedOrder log)"
proof (induction log rule: rev_induct)
  case Nil
  show ?case by (simp add: appliedOrder_def)
next
  case (snoc x log)
  let ?n = "length log"
  have d: "distinct (appliedAt (log @ [x]) ?n)"
    by (simp add: appliedAt_def openBatch_def)
  have "set (appliedOrder log) \<inter> set (appliedAt (log @ [x]) ?n) = {}"
  proof (rule ccontr)
    assume "set (appliedOrder log) \<inter> set (appliedAt (log @ [x]) ?n) \<noteq> {}"
    then obtain j where a: "j \<in> set (appliedOrder log)" and b: "j \<in> set (appliedAt (log @ [x]) ?n)"
      by blast
    from a have jl: "j < ?n" by (rule appliedOrder_set_less)
    from a have c: "committed log j" by (simp add: applied_iff_committed)
    from b jl have nz: "recSeq (fst ((log @ [x]) ! ?n)) \<noteq> 0"
      and ob: "j \<in> set (openBatch log ?n (recSeq (fst ((log @ [x]) ! ?n))))"
      by (auto simp: appliedAt_def openBatch_append split: if_splits)
    from ob have s: "recSeq (fst (log ! j)) = recSeq (fst ((log @ [x]) ! ?n))"
      and none: "\<forall>m \<in> {j<..<?n}. \<not> terminator log (recSeq (fst ((log @ [x]) ! ?n))) m"
      by (simp_all add: openBatch_def)
    from c s nz none show False by (auto simp: committed_def)
  qed
  with snoc.IH d show ?case by (simp add: appliedOrder_snoc)
qed

text \<open>
  The log of a recovery: the records that \<open>loadIndexFromDataFiles\<close> reads, in the order in
  which it reads them.
\<close>

definition recoveryLog :: "Database \<Rightarrow> Directory \<Rightarrow> error + (LogRecord \<times> LogRecordPos) list" where
  "recoveryLog db dir =
     (if fileIDs db = [] then Inr []
      else
        (case (if mergeFinishedFile dir = None then Inr (False, 0)
               else (case getNonMergeFileID dir of Inl e \<Rightarrow> Inl e | Inr fid \<Rightarrow> Inr (True, fid))) of
           Inl e \<Rightarrow> Inl e
         | Inr (hasMerge, nonMergeFileID) \<Rightarrow>
             readFiles dir db hasMerge nonMergeFileID (fileIDs db)))"

lemma loadIndexFromDataFiles_replay:
  assumes "loadIndexFromDataFiles db dir = Inr db'"
  shows "\<exists>log rp. recoveryLog db dir = Inr log
           \<and> replayRecords log \<lparr>rp_db = db, transactionRecords = (\<lambda>_. []),
                                  currentSeqNo = nonTransactionSeqNo\<rparr> = Inr rp
           \<and> index db' = index (rp_db rp)"
proof (cases "fileIDs db = []")
  case True
  with assms have "db' = db" by (simp add: loadIndexFromDataFiles_def)
  with True show ?thesis by (simp add: recoveryLog_def)
next
  case False
  let ?rp0 = "\<lparr>rp_db = db, transactionRecords = (\<lambda>_. []), currentSeqNo = nonTransactionSeqNo\<rparr>"
  let ?fr = "if mergeFinishedFile dir = None then Inr (False, 0)
             else (case getNonMergeFileID dir of Inl e \<Rightarrow> Inl e | Inr fid \<Rightarrow> Inr (True, fid))"
  from assms False obtain hasMerge nonMergeFileID where fr: "?fr = Inr (hasMerge, nonMergeFileID)"
    by (cases ?fr) (auto simp: loadIndexFromDataFiles_def)
  from assms False fr obtain rp' where
    rf: "replayFiles dir hasMerge nonMergeFileID (fileIDs db) ?rp0 = Inr rp'"
    and d: "db' = (rp_db rp')\<lparr>seqNo := currentSeqNo rp'\<rparr>"
    by (cases "replayFiles dir hasMerge nonMergeFileID (fileIDs db) ?rp0")
       (auto simp: loadIndexFromDataFiles_def)
  from replayFiles_Inr_readFiles [OF rf] obtain records rp'' a where
    rd: "readFiles dir db hasMerge nonMergeFileID (fileIDs db) = Inr records"
    and rr: "replayRecords records ?rp0 = Inr rp''"
    and e: "rp' = rp''\<lparr>rp_db := (rp_db rp'')\<lparr>activeFile := a\<rparr>\<rparr>"
    by auto
  have "recoveryLog db dir = Inr records" using False fr rd by (simp add: recoveryLog_def)
  moreover have "index db' = index (rp_db rp'')" by (simp add: d e)
  ultimately show ?thesis using rr by blast
qed

text \<open>
  C3, as the code has it. After a recovery that returns, the key directory is the one
  before it with the updates of the committed records of the log applied, each once: a
  record of sequence number 0 at its place, and a record of a sequence number \<open>s > 0\<close> at the
  first terminator of \<open>s\<close> that stands behind it in the order of the replay. A record of
  \<open>s > 0\<close> is applied exactly when such a terminator stands behind it; the records of a
  batch without a terminator behind them are not applied.
\<close>

theorem replay_applies_terminated_batches:
  assumes "loadIndexFromDataFiles db dir = Inr db'"
  shows "\<exists>log. recoveryLog db dir = Inr log
           \<and> index db' = index (foldl applyEntry db (map (\<lambda>j. log ! j) (appliedOrder log)))
           \<and> (\<forall>j. j \<in> set (appliedOrder log) \<longleftrightarrow> committed log j)
           \<and> distinct (appliedOrder log)"
proof -
  let ?rp0 = "\<lparr>rp_db = db, transactionRecords = (\<lambda>_. []), currentSeqNo = nonTransactionSeqNo\<rparr>"
  from loadIndexFromDataFiles_replay [OF assms] obtain log rp where
    l: "recoveryLog db dir = Inr log" and r: "replayRecords log ?rp0 = Inr rp"
    and i: "index db' = index (rp_db rp)" by blast
  have "transactionRecords ?rp0 = (\<lambda>_. [])" by simp
  from replayRecords_applied [OF this r]
  have "rp_db rp = foldl applyEntry db (map (\<lambda>j. log ! j) (appliedOrder log))" by simp
  with l i show ?thesis using applied_iff_committed [of _ log] appliedOrder_distinct [of log] by auto
qed

theorem replay_applies_terminated_batches_witness:
  "loadIndexFromDataFiles
     \<lparr>options = \<lparr>DataFileSize = 64, SyncWrites = False, BytesPerSync = 0\<rparr>, fileIDs = [0],
      activeFile = Some \<lparr>FileID = 0, WriteOffset = 0\<rparr>, olderFiles = [], index = [],
      seqNo = 0, isMerging = False, bytesWrite = 0, reclaimSize = 0\<rparr>
     \<lparr>dataFiles = [(0, [186, 195, 230, 208, 0, 4, 2, 1, 107, 118,
                        35, 103, 140, 1, 2, 16, 0, 1, 116, 120, 110, 45, 102, 105, 110])],
      hintFile = None, mergeFinishedFile = None, seqNoFile = None\<rparr>
   = Inr \<lparr>options = \<lparr>DataFileSize = 64, SyncWrites = False, BytesPerSync = 0\<rparr>, fileIDs = [0],
          activeFile = Some \<lparr>FileID = 0, WriteOffset = 25\<rparr>, olderFiles = [],
          index = [([107], \<lparr>Fid = 0, Offset = 0, Size = 10\<rparr>)],
          seqNo = 1, isMerging = False, bytesWrite = 0, reclaimSize = 0\<rparr>
   \<and> (\<exists>log. recoveryLog
          \<lparr>options = \<lparr>DataFileSize = 64, SyncWrites = False, BytesPerSync = 0\<rparr>, fileIDs = [0],
           activeFile = Some \<lparr>FileID = 0, WriteOffset = 0\<rparr>, olderFiles = [], index = [],
           seqNo = 0, isMerging = False, bytesWrite = 0, reclaimSize = 0\<rparr>
          \<lparr>dataFiles = [(0, [186, 195, 230, 208, 0, 4, 2, 1, 107, 118,
                             35, 103, 140, 1, 2, 16, 0, 1, 116, 120, 110, 45, 102, 105, 110])],
           hintFile = None, mergeFinishedFile = None, seqNoFile = None\<rparr> = Inr log
        \<and> [([107], \<lparr>Fid = 0, Offset = 0, Size = 10\<rparr>)]
            = index (foldl applyEntry
                \<lparr>options = \<lparr>DataFileSize = 64, SyncWrites = False, BytesPerSync = 0\<rparr>, fileIDs = [0],
                 activeFile = Some \<lparr>FileID = 0, WriteOffset = 0\<rparr>, olderFiles = [], index = [],
                 seqNo = 0, isMerging = False, bytesWrite = 0, reclaimSize = 0\<rparr>
                (map (\<lambda>j. log ! j) (appliedOrder log)))
        \<and> (\<forall>j. j \<in> set (appliedOrder log) \<longleftrightarrow> committed log j)
        \<and> distinct (appliedOrder log))"
proof -
  let ?db = "\<lparr>options = \<lparr>DataFileSize = 64, SyncWrites = False, BytesPerSync = 0\<rparr>, fileIDs = [0],
      activeFile = Some \<lparr>FileID = 0, WriteOffset = 0\<rparr>, olderFiles = [], index = [],
      seqNo = 0, isMerging = False, bytesWrite = 0, reclaimSize = 0\<rparr>"
  let ?dir = "\<lparr>dataFiles = [(0, [186, 195, 230, 208, 0, 4, 2, 1, 107, 118,
                        35, 103, 140, 1, 2, 16, 0, 1, 116, 120, 110, 45, 102, 105, 110])],
      hintFile = None, mergeFinishedFile = None, seqNoFile = None\<rparr>"
  let ?db' = "\<lparr>options = \<lparr>DataFileSize = 64, SyncWrites = False, BytesPerSync = 0\<rparr>, fileIDs = [0],
          activeFile = Some \<lparr>FileID = 0, WriteOffset = 25\<rparr>, olderFiles = [],
          index = [([107], \<lparr>Fid = 0, Offset = 0, Size = 10\<rparr>)],
          seqNo = 1, isMerging = False, bytesWrite = 0, reclaimSize = 0\<rparr>"
  have h: "loadIndexFromDataFiles ?db ?dir = Inr ?db'"
    by (simp add: loadIndexFromDataFiles_def replayRecord_def parseLogRecordKey_def updateIndex_def
          scanFile.simps fileBytes_def BTree_Put_def BTree_Delete_def addReclaim_def
          nonTransactionSeqNo_def LogRecordNormal_def LogRecordDeleted_def LogRecordTxnFinished_def
          read_eval)
  from replay_applies_terminated_batches [OF h] h show ?thesis by simp
qed

text \<open>
  A log in which the terminator of the sequence number 1 stands before a record that
  carries 1: a terminator of 1 exists in the log, and the record is not in the key
  directory after the recovery.
\<close>

theorem terminator_before_record_not_applied:
  "readAll [35, 103, 140, 1, 2, 16, 0, 1, 116, 120, 110, 45, 102, 105, 110,
            186, 195, 230, 208, 0, 4, 2, 1, 107, 118] 0 0
     = Inr ([(\<lparr>Key = [1, 116, 120, 110, 45, 102, 105, 110], Value = [], Type = LogRecordTxnFinished\<rparr>,
              \<lparr>Fid = 0, Offset = 0, Size = 15\<rparr>),
             (\<lparr>Key = [1, 107], Value = [118], Type = LogRecordNormal\<rparr>,
              \<lparr>Fid = 0, Offset = 15, Size = 10\<rparr>)], 25)
   \<and> parseLogRecordKey [1, 116, 120, 110, 45, 102, 105, 110] = Inr (txnFinKey, 1)
   \<and> parseLogRecordKey [1, 107] = Inr ([107], 1)
   \<and> (\<exists>db dir.
         Open \<lparr>DataFileSize = 64, SyncWrites = False, BytesPerSync = 0\<rparr>
              \<lparr>dataFiles = [(0, [35, 103, 140, 1, 2, 16, 0, 1, 116, 120, 110, 45, 102, 105, 110,
                                 186, 195, 230, 208, 0, 4, 2, 1, 107, 118])],
               hintFile = None, mergeFinishedFile = None, seqNoFile = None\<rparr> None = Inr (db, dir)
         \<and> index db = [] \<and> Get db dir [107] = Inl ErrKeyNotFound)"
  by (simp add: Open_def checkOptions_def loadMergeFiles_def loadDataFiles_def
        loadIndexFromHintFile_def loadIndexFromDataFiles_def NewBTree_def
        replayRecord_def parseLogRecordKey_def updateIndex_def scanFile.simps readAll.simps
        OpenDataFile_def fileBytes_def setFileBytes_def putOlder_def txnFinKey_def
        BTree_Put_def BTree_Delete_def BTree_Get_def Get_def addReclaim_def
        nonTransactionSeqNo_def LogRecordNormal_def LogRecordDeleted_def LogRecordTxnFinished_def
        read_eval)

section \<open>Runs of the engine\<close>

text \<open>
  A state of the whole: the engine, its data directory and the sibling merge directory when
  there is one. The operations of a run are \<open>Put\<close>, \<open>Delete\<close>, the \<open>Commit\<close> of a write batch
  and \<open>Merge\<close> with both of its size guards passing; a run stops at the first operation that
  returns an error.
\<close>

type_synonym State = "Database \<times> Directory \<times> Directory option"

datatype op = OpPut bytes bytes | OpDelete bytes | OpCommit WriteBatch | OpMerge

fun step :: "State \<Rightarrow> op \<Rightarrow> error + State" where
  "step (db, dir, md) (OpPut key val) =
     (case Put db dir key val of Inl e \<Rightarrow> Inl e | Inr (db', dir') \<Rightarrow> Inr (db', dir', md))"
| "step (db, dir, md) (OpDelete key) =
     (case Delete db dir key of Inl e \<Rightarrow> Inl e | Inr (db', dir') \<Rightarrow> Inr (db', dir', md))"
| "step (db, dir, md) (OpCommit wb) =
     (case Commit wb db dir of Inl e \<Rightarrow> Inl e | Inr (_, db', dir') \<Rightarrow> Inr (db', dir', md))"
| "step (db, dir, md) OpMerge = Merge db dir md False False"

fun run :: "op list \<Rightarrow> State \<Rightarrow> error + State" where
  "run [] s = Inr s"
| "run (operation # rest) s = (case step s operation of Inl e \<Rightarrow> Inl e | Inr s' \<Rightarrow> run rest s')"

lemma run_append:
  "run (xs @ ys) s = (case run xs s of Inl e \<Rightarrow> Inl e | Inr s' \<Rightarrow> run ys s')"
  by (induction xs arbitrary: s) (auto split: sum.splits)

subsection \<open>Handles and files\<close>

text \<open>
  The handle that \<open>getValueByPosition\<close> picks for a file id.
\<close>

definition handleOf :: "Database \<Rightarrow> 32 word \<Rightarrow> DataFile option" where
  "handleOf db fid =
     (case activeFile db of
        None \<Rightarrow> None
      | Some af \<Rightarrow> if FileID af = fid then Some af else map_of (olderFiles db) fid)"

lemma getValueByPosition_handleOf:
  "getValueByPosition db dir pos =
     (case activeFile db of
        None \<Rightarrow> Inl Panic
      | Some af \<Rightarrow>
          (case handleOf db (Fid pos) of
             None \<Rightarrow> Inl ErrDataFileNotFound
           | Some dataFile \<Rightarrow>
               (case DataFile_ReadLogRecord dir dataFile (Offset pos) of
                  Inl e \<Rightarrow> Inl e
                | Inr (logRecord, _) \<Rightarrow>
                    if Type logRecord = LogRecordDeleted then Inl ErrKeyNotFound
                    else Inr (Value logRecord))))"
  by (simp add: getValueByPosition_def handleOf_def split: option.splits)

lemma fileBytes_setFileBytes_other:
  assumes "fid' \<noteq> fid"
  shows "fileBytes (setFileBytes dir fid content) fid' = fileBytes dir fid'"
proof -
  have ne: "unat fid' \<noteq> unat fid" using assms by (simp add: word_unat_eq_iff)
  have m: "\<And>xs. map_of (map (\<lambda>(n, c). if n = unat fid then (n, content) else (n, c)) xs) (unat fid')
               = map_of xs (unat fid')"
  proof -
    fix xs :: "(nat \<times> bytes) list"
    show "map_of (map (\<lambda>(n, c). if n = unat fid then (n, content) else (n, c)) xs) (unat fid')
               = map_of xs (unat fid')"
      using ne by (induction xs) auto
  qed
  show ?thesis using ne
    by (auto simp: fileBytes_def setFileBytes_def m map_add_def split: option.splits)
qed

lemma fileBytes_OpenDataFile_other:
  "fid' \<noteq> fid \<Longrightarrow> fileBytes (snd (OpenDataFile dir fid)) fid' = fileBytes dir fid'"
  by (cases "fileBytes dir fid") (simp_all add: OpenDataFile_def fileBytes_setFileBytes_other)

lemma fileBytes_OpenDataFile_present:
  "fileBytes dir fid' \<noteq> None \<Longrightarrow> fileBytes (snd (OpenDataFile dir fid)) fid' = fileBytes dir fid'"
  by (cases "fid' = fid") (auto simp: OpenDataFile_def fileBytes_setFileBytes_other split: option.splits)

lemma fileBytes_DataFile_Write_other:
  "fid' \<noteq> FileID df \<Longrightarrow> fileBytes (snd (DataFile_Write dir df buffer)) fid' = fileBytes dir fid'"
  by (simp add: DataFile_Write_def fileBytes_setFileBytes_other)

lemma fileBytes_DataFile_Write_exists:
  "fileBytes dir fid' \<noteq> None \<Longrightarrow> fileBytes (snd (DataFile_Write dir df buffer)) fid' \<noteq> None"
  by (cases "fid' = FileID df")
     (simp_all add: DataFile_Write_def fileBytes_setFileBytes_other fileBytes_setFileBytes_same)

text \<open>
  What holds of the handles in every state of a run: a handle stands under its own id and
  its file exists, without an active file there is no immutable file, and every position
  in the key directory has a handle.
\<close>

definition handlesOK :: "Database \<Rightarrow> Directory \<Rightarrow> bool" where
  "handlesOK db dir \<longleftrightarrow>
     (\<forall>fid df. handleOf db fid = Some df \<longrightarrow> FileID df = fid \<and> fileBytes dir fid \<noteq> None)
     \<and> (activeFile db = None \<longrightarrow> olderFiles db = [])"

definition handlesInv :: "Database \<Rightarrow> Directory \<Rightarrow> bool" where
  "handlesInv db dir \<longleftrightarrow>
     handlesOK db dir \<and> (\<forall>e \<in> set (index db). handleOf db (Fid (snd e)) \<noteq> None)"

lemma map_of_putOlder:
  "map_of (putOlder m fid df) fid' = (if fid' = fid then Some df else map_of m fid')"
proof -
  have "fid' \<noteq> fid \<Longrightarrow> map_of (filter (\<lambda>e. fst e \<noteq> fid) m) fid' = map_of m fid'"
    by (induction m) auto
  then show ?thesis by (simp add: putOlder_def)
qed

text \<open>The rotation that \<open>appendLogRecord\<close> and \<open>Merge\<close> share.\<close>

lemma rotate_handles:
  assumes h: "handlesOK db dir" and a: "activeFile db = Some af"
  defines "db1 \<equiv> fst (setActiveDataFile (db\<lparr>olderFiles := putOlder (olderFiles db) (FileID af) af\<rparr>) dir)"
    and "dir1 \<equiv> snd (setActiveDataFile (db\<lparr>olderFiles := putOlder (olderFiles db) (FileID af) af\<rparr>) dir)"
  shows "handlesOK db1 dir1"
    and "\<And>fid. handleOf db fid \<noteq> None \<Longrightarrow> handleOf db1 fid \<noteq> None"
    and "\<And>fid. fileBytes dir fid \<noteq> None \<Longrightarrow> fileBytes dir1 fid = fileBytes dir fid"
    and "activeFile db1 = Some \<lparr>FileID = FileID af + 1, WriteOffset = 0\<rparr>"
    and "olderFiles db1 = putOlder (olderFiles db) (FileID af) af"
    and "dir1 = snd (OpenDataFile dir (FileID af + 1))"
    and "index db1 = index db" and "options db1 = options db" and "seqNo db1 = seqNo db"
proof -
  show act: "activeFile db1 = Some \<lparr>FileID = FileID af + 1, WriteOffset = 0\<rparr>"
    and old: "olderFiles db1 = putOlder (olderFiles db) (FileID af) af"
    and d1: "dir1 = snd (OpenDataFile dir (FileID af + 1))"
    and "index db1 = index db" and "options db1 = options db" and "seqNo db1 = seqNo db"
    using a by (simp_all add: db1_def dir1_def setActiveDataFile_def OpenDataFile_def Let_def
                  split: prod.splits)
  show keep: "\<And>fid. fileBytes dir fid \<noteq> None \<Longrightarrow> fileBytes dir1 fid = fileBytes dir fid"
    unfolding d1 by (rule fileBytes_OpenDataFile_present)
  have ho: "\<And>fid. handleOf db1 fid
              = (if FileID af + 1 = fid then Some \<lparr>FileID = FileID af + 1, WriteOffset = 0\<rparr>
                 else if fid = FileID af then Some af else map_of (olderFiles db) fid)"
    by (simp add: handleOf_def act old map_of_putOlder)
  have hd: "\<And>fid. handleOf db fid = (if FileID af = fid then Some af else map_of (olderFiles db) fid)"
    by (simp add: handleOf_def a)
  show "\<And>fid. handleOf db fid \<noteq> None \<Longrightarrow> handleOf db1 fid \<noteq> None"
    by (auto simp: ho hd)
  have "\<And>fid df. handleOf db1 fid = Some df \<Longrightarrow> FileID df = fid \<and> fileBytes dir1 fid \<noteq> None"
  proof -
    fix fid df assume s: "handleOf db1 fid = Some df"
    show "FileID df = fid \<and> fileBytes dir1 fid \<noteq> None"
    proof (cases "FileID af + 1 = fid")
      case True
      with s have "df = \<lparr>FileID = FileID af + 1, WriteOffset = 0\<rparr>" by (simp add: ho)
      with True show ?thesis unfolding d1 using fileBytes_OpenDataFile_same [of dir fid] by auto
    next
      case False
      with s have "handleOf db fid = Some df" by (auto simp: ho hd split: if_splits)
      with h have "FileID df = fid \<and> fileBytes dir fid \<noteq> None" by (simp add: handlesOK_def)
      with keep [of fid] show ?thesis by simp
    qed
  qed
  then show "handlesOK db1 dir1" by (simp add: handlesOK_def act)
qed

lemma first_file_handles:
  assumes h: "handlesOK db dir" and a: "activeFile db = None"
  defines "db1 \<equiv> fst (setActiveDataFile db dir)" and "dir1 \<equiv> snd (setActiveDataFile db dir)"
  shows "handlesOK db1 dir1"
    and "\<And>fid. fileBytes dir fid \<noteq> None \<Longrightarrow> fileBytes dir1 fid = fileBytes dir fid"
    and "activeFile db1 = Some \<lparr>FileID = 0, WriteOffset = 0\<rparr>"
    and "olderFiles db1 = []"
    and "dir1 = snd (OpenDataFile dir 0)"
    and "index db1 = index db" and "options db1 = options db" and "seqNo db1 = seqNo db"
proof -
  have o: "olderFiles db = []" using h a by (simp add: handlesOK_def)
  show act: "activeFile db1 = Some \<lparr>FileID = 0, WriteOffset = 0\<rparr>"
    and old: "olderFiles db1 = []"
    and d1: "dir1 = snd (OpenDataFile dir 0)"
    and "index db1 = index db" and "options db1 = options db" and "seqNo db1 = seqNo db"
    using a o by (simp_all add: db1_def dir1_def setActiveDataFile_def OpenDataFile_def Let_def
                  split: prod.splits)
  show "\<And>fid. fileBytes dir fid \<noteq> None \<Longrightarrow> fileBytes dir1 fid = fileBytes dir fid"
    unfolding d1 by (rule fileBytes_OpenDataFile_present)
  show "handlesOK db1 dir1"
    unfolding handlesOK_def handleOf_def act old d1
    using fileBytes_OpenDataFile_same [of dir 0] by auto
qed

lemma appendLogRecord_Inr_encoded:
  assumes "appendLogRecord db dir logRecord = Inr (pos, db', dir')"
  obtains enc sz where "EncodeLogRecord logRecord = Inr (enc, sz)"
  using assms
  by (cases "EncodeLogRecord logRecord")
     (auto simp: appendLogRecord_def Let_def split: prod.splits)

lemma appendLogRecord_handles:
  assumes ap: "appendLogRecord db dir logRecord = Inr (pos, db', dir')"
    and h: "handlesOK db dir"
  shows "handlesOK db' dir'"
    and "index db' = index db"
    and "handleOf db' (Fid pos) \<noteq> None"
    and "\<And>fid. handleOf db fid \<noteq> None \<Longrightarrow> handleOf db' fid \<noteq> None"
    and "activeFile db' \<noteq> None"
    and "options db' = options db" and "seqNo db' = seqNo db"
proof -
  obtain enc sz where e: "EncodeLogRecord logRecord = Inr (enc, sz)"
    using ap by (rule appendLogRecord_Inr_encoded)
  define af where "af = (case activeFile db of None \<Rightarrow> \<lparr>FileID = 0, WriteOffset = 0\<rparr> | Some a \<Rightarrow> a)"
  define rotate where "rotate \<longleftrightarrow> DataFileSize (options db) < WriteOffset af + sz"
  define af2 where "af2 = (if rotate then \<lparr>FileID = FileID af + 1, WriteOffset = 0\<rparr> else af)"
  define dir1 where "dir1 = (case activeFile db of None \<Rightarrow> snd (OpenDataFile dir 0) | Some a \<Rightarrow> dir)"
  define dir2 where "dir2 = (if rotate then snd (OpenDataFile dir1 (FileID af + 1)) else dir1)"
  define older where "older = (if rotate then putOlder (olderFiles db) (FileID af) af else olderFiles db)"
  define af' where "af' = af2\<lparr>WriteOffset := WriteOffset af2 + int (length enc)\<rparr>"
  have res: "pos = \<lparr>Fid = FileID af2, Offset = WriteOffset af2, Size = word_of_int sz\<rparr>"
    "activeFile db' = Some af'" "olderFiles db' = older"
    "dir' = snd (DataFile_Write dir2 af2 enc)"
    "index db' = index db" "options db' = options db" "seqNo db' = seqNo db"
    using appendLogRecord_unfold [OF e, of db dir] ap
    unfolding Let_def af_def [symmetric] rotate_def [symmetric] af2_def [symmetric]
      dir1_def [symmetric] dir2_def [symmetric] older_def [symmetric] af'_def [symmetric]
    by auto
  show "index db' = index db" "options db' = options db" "seqNo db' = seqNo db"
    "activeFile db' \<noteq> None" by (simp_all add: res)
  have ho: "\<And>fid. handleOf db' fid = (if FileID af2 = fid then Some af' else map_of older fid)"
    by (simp add: handleOf_def res af'_def)
  show "handleOf db' (Fid pos) \<noteq> None" by (simp add: ho res)
  have afx: "fileBytes dir1 (FileID af) \<noteq> None"
  proof (cases "activeFile db")
    case None
    then show ?thesis using fileBytes_OpenDataFile_same [of dir 0] by (simp add: af_def dir1_def)
  next
    case (Some a)
    then have "handleOf db (FileID a) = Some a" by (simp add: handleOf_def)
    with h have "fileBytes dir (FileID a) \<noteq> None" unfolding handlesOK_def by blast
    with Some show ?thesis by (simp add: af_def dir1_def)
  qed
  have k1: "\<And>fid. fileBytes dir fid \<noteq> None \<Longrightarrow> fileBytes dir1 fid \<noteq> None"
    by (cases "activeFile db") (simp_all add: dir1_def fileBytes_OpenDataFile_present)
  have k2: "\<And>fid. fileBytes dir1 fid \<noteq> None \<Longrightarrow> fileBytes dir' fid \<noteq> None"
    unfolding res dir2_def
    by (cases rotate) (simp_all add: fileBytes_DataFile_Write_exists fileBytes_OpenDataFile_present)
  have oldh: "\<And>fid df. map_of (olderFiles db) fid = Some df \<Longrightarrow> fid \<noteq> FileID af \<Longrightarrow>
                 handleOf db fid = Some df"
  proof -
    fix fid df assume m: "map_of (olderFiles db) fid = Some df" and ne: "fid \<noteq> FileID af"
    show "handleOf db fid = Some df"
    proof (cases "activeFile db")
      case None
      with h have "olderFiles db = []" by (simp add: handlesOK_def)
      with m show ?thesis by simp
    next
      case (Some a)
      with m ne show ?thesis by (auto simp: handleOf_def af_def)
    qed
  qed
  have "\<And>fid df. handleOf db' fid = Some df \<Longrightarrow> FileID df = fid \<and> fileBytes dir' fid \<noteq> None"
  proof -
    fix fid df assume s: "handleOf db' fid = Some df"
    show "FileID df = fid \<and> fileBytes dir' fid \<noteq> None"
    proof (cases "FileID af2 = fid")
      case True
      with s have "df = af'" by (simp add: ho)
      moreover have "fileBytes dir' (FileID af2) \<noteq> None"
        unfolding res by (rule fileBytes_DataFile_Write_same)
      ultimately show ?thesis using True by (simp add: af'_def)
    next
      case False
      with s have m: "map_of older fid = Some df" by (simp add: ho)
      show ?thesis
      proof (cases "rotate \<and> fid = FileID af")
        case True
        with m have "df = af" by (simp add: older_def map_of_putOlder)
        with True afx k2 show ?thesis by simp
      next
        case nr: False
        have ne: "fid \<noteq> FileID af" using nr False by (auto simp: af2_def)
        from m nr have "map_of (olderFiles db) fid = Some df"
          by (auto simp: older_def map_of_putOlder split: if_splits)
        from oldh [OF this ne] h have "FileID df = fid \<and> fileBytes dir fid \<noteq> None"
          unfolding handlesOK_def by blast
        with k1 k2 show ?thesis by simp
      qed
    qed
  qed
  then show "handlesOK db' dir'" by (simp add: handlesOK_def res)
  show "\<And>fid. handleOf db fid \<noteq> None \<Longrightarrow> handleOf db' fid \<noteq> None"
  proof -
    fix fid assume n: "handleOf db fid \<noteq> None"
    then obtain a where a: "activeFile db = Some a" by (cases "activeFile db") (simp_all add: handleOf_def)
    then have afa: "af = a" by (simp add: af_def)
    from n a have "fid = FileID af \<or> map_of (olderFiles db) fid \<noteq> None"
      by (auto simp: handleOf_def afa split: if_splits)
    then show "handleOf db' fid \<noteq> None"
      by (auto simp: ho older_def af2_def map_of_putOlder)
  qed
qed

lemma BTree_Put_set:
  "set (snd (BTree_Put bt key pos)) \<subseteq> insert (key, pos) (set bt)"
  by (auto simp: BTree_Put_def set_insort_key)

lemma BTree_Delete_set:
  "set (snd (BTree_Delete bt key)) \<subseteq> set bt"
  by (auto simp: BTree_Delete_def)

lemma handleOf_cong:
  assumes "activeFile db' = activeFile db" and "olderFiles db' = olderFiles db"
  shows "handleOf db' = handleOf db"
  unfolding handleOf_def fun_eq_iff assms by simp

lemma handlesOK_cong:
  assumes "activeFile db' = activeFile db" and "olderFiles db' = olderFiles db"
  shows "handlesOK db' dir = handlesOK db dir"
  unfolding handlesOK_def handleOf_cong [OF assms] assms by (rule refl)

lemma Put_handles:
  assumes "Put db dir key val = Inr (db', dir')" and "handlesInv db dir"
  shows "handlesInv db' dir'"
proof -
  let ?r = "\<lparr>Key = logRecordKeyWithSeq key nonTransactionSeqNo, Value = val, Type = LogRecordNormal\<rparr>"
  from assms(1) have ne: "length key \<noteq> 0" by (auto simp: Put_def)
  obtain pos db1 where ap: "appendLogRecord db dir ?r = Inr (pos, db1, dir')"
    and d: "db' = addReclaim (db1\<lparr>index := snd (BTree_Put (index db1) key pos)\<rparr>)
                    (fst (BTree_Put (index db1) key pos))"
  proof (cases "appendLogRecord db dir ?r")
    case (Inl e)
    with assms(1) ne show ?thesis by (simp add: Put_def)
  next
    case (Inr x)
    obtain pos db1 dir1 where x: "x = (pos, db1, dir1)" by (cases x)
    with Inr assms(1) ne that show ?thesis
      by (simp add: Put_def Let_def split: prod.splits)
  qed
  from assms(2) have h: "handlesOK db dir"
    and en: "\<forall>e \<in> set (index db). handleOf db (Fid (snd e)) \<noteq> None"
    by (simp_all add: handlesInv_def)
  note a = appendLogRecord_handles [OF ap h]
  have hc: "handleOf db' = handleOf db1" unfolding d by (rule handleOf_cong) simp_all
  have "handlesOK db' dir' = handlesOK db1 dir'" unfolding d by (rule handlesOK_cong) simp_all
  with a(1) have "handlesOK db' dir'" by simp
  moreover have "\<forall>e \<in> set (index db'). handleOf db' (Fid (snd e)) \<noteq> None"
  proof
    fix e assume "e \<in> set (index db')"
    then have "e \<in> insert (key, pos) (set (index db))"
      using BTree_Put_set [of "index db1" key pos] a(2) by (auto simp: d)
    then show "handleOf db' (Fid (snd e)) \<noteq> None"
      using a(3) a(4) en by (auto simp: hc)
  qed
  ultimately show ?thesis by (simp add: handlesInv_def)
qed

lemma Delete_handles:
  assumes "Delete db dir key = Inr (db', dir')" and "handlesInv db dir"
  shows "handlesInv db' dir'"
proof (cases "BTree_Get (index db) key = None")
  case True
  with assms show ?thesis by (auto simp: Delete_def split: if_splits)
next
  case False
  let ?r = "\<lparr>Key = logRecordKeyWithSeq key nonTransactionSeqNo, Value = [], Type = LogRecordDeleted\<rparr>"
  from assms(1) have ne: "length key \<noteq> 0" by (auto simp: Delete_def)
  obtain pos db1 where ap: "appendLogRecord db dir ?r = Inr (pos, db1, dir')"
    and d: "db' = addReclaim (db1\<lparr>reclaimSize := reclaimSize db1 + uint (Size pos),
                                   index := snd (BTree_Delete (index db1) key)\<rparr>)
                    (fst (fst (BTree_Delete (index db1) key)))"
  proof (cases "appendLogRecord db dir ?r")
    case (Inl e)
    with assms(1) ne False show ?thesis by (auto simp: Delete_def Let_def)
  next
    case (Inr x)
    obtain pos db1 dir1 where x: "x = (pos, db1, dir1)" by (cases x)
    with Inr assms(1) ne False that show ?thesis
      by (auto simp: Delete_def Let_def split: prod.splits if_splits)
  qed
  from assms(2) have h: "handlesOK db dir"
    and en: "\<forall>e \<in> set (index db). handleOf db (Fid (snd e)) \<noteq> None"
    by (simp_all add: handlesInv_def)
  note a = appendLogRecord_handles [OF ap h]
  have hc: "handleOf db' = handleOf db1" unfolding d by (rule handleOf_cong) simp_all
  have "handlesOK db' dir' = handlesOK db1 dir'" unfolding d by (rule handlesOK_cong) simp_all
  with a(1) have "handlesOK db' dir'" by simp
  moreover have "\<forall>e \<in> set (index db'). handleOf db' (Fid (snd e)) \<noteq> None"
  proof
    fix e assume "e \<in> set (index db')"
    then have "e \<in> set (index db)"
      using BTree_Delete_set [of "index db1" key] a(2) by (auto simp: d)
    then show "handleOf db' (Fid (snd e)) \<noteq> None"
      using a(4) en by (auto simp: hc)
  qed
  ultimately show ?thesis by (simp add: handlesInv_def)
qed

lemma commitAppend_handles:
  "commitAppend records seq db dir positions = Inr (positions', db', dir') \<Longrightarrow>
   handlesOK db dir \<Longrightarrow>
   \<forall>e \<in> set positions. handleOf db (Fid (snd e)) \<noteq> None \<Longrightarrow>
     handlesOK db' dir' \<and> index db' = index db
     \<and> (\<forall>e \<in> set positions'. handleOf db' (Fid (snd e)) \<noteq> None)
     \<and> (\<forall>fid. handleOf db fid \<noteq> None \<longrightarrow> handleOf db' fid \<noteq> None)"
proof (induction records arbitrary: db dir positions)
  case Nil
  then show ?case by simp
next
  case (Cons r rest)
  let ?lr = "\<lparr>Key = logRecordKeyWithSeq (Key r) seq, Value = Value r, Type = Type r\<rparr>"
  from Cons.prems(1) obtain pos db1 dir1 where
    ap: "appendLogRecord db dir ?lr = Inr (pos, db1, dir1)"
    and rest: "commitAppend rest seq db1 dir1
                 ((Key r, pos) # filter (\<lambda>e. fst e \<noteq> Key r) positions) = Inr (positions', db', dir')"
    by (auto split: sum.splits)
  note a = appendLogRecord_handles [OF ap Cons.prems(2)]
  have p: "\<forall>e \<in> set ((Key r, pos) # filter (\<lambda>e. fst e \<noteq> Key r) positions).
              handleOf db1 (Fid (snd e)) \<noteq> None"
    using a(3) a(4) Cons.prems(3) by auto
  from Cons.IH [OF rest a(1) p] a(2) a(4) show ?case by auto
qed

lemma commitIndex_handles:
  "commitIndex records positions db = Inr db' \<Longrightarrow>
   \<forall>e \<in> set positions. handleOf db (Fid (snd e)) \<noteq> None \<Longrightarrow>
   \<forall>e \<in> set (index db). handleOf db (Fid (snd e)) \<noteq> None \<Longrightarrow>
     activeFile db' = activeFile db \<and> olderFiles db' = olderFiles db
     \<and> (\<forall>e \<in> set (index db'). handleOf db' (Fid (snd e)) \<noteq> None)"
proof (induction records arbitrary: db)
  case Nil
  then show ?case by simp
next
  case (Cons r rest)
  from Cons.prems(1) obtain pos where mp: "map_of positions (Key r) = Some pos"
    by (cases "map_of positions (Key r)") auto
  then have pin: "(Key r, pos) \<in> set positions" by (rule map_of_SomeD)
  define db1 where "db1 = (if Type r = LogRecordNormal
                           then db\<lparr>index := snd (BTree_Put (index db) (Key r) pos)\<rparr> else db)"
  define db2 where "db2 = (if Type r = LogRecordDeleted
                           then db1\<lparr>index := snd (BTree_Delete (index db1) (Key r))\<rparr> else db1)"
  from Cons.prems(1) mp obtain old where rest: "commitIndex rest positions (addReclaim db2 old) = Inr db'"
    by (auto simp: db1_def db2_def Let_def split: prod.splits if_splits)
  have fr: "activeFile (addReclaim db2 old) = activeFile db" "olderFiles (addReclaim db2 old) = olderFiles db"
    by (simp_all add: db1_def db2_def)
  then have hc: "handleOf (addReclaim db2 old) = handleOf db" by (rule handleOf_cong)
  have "set (index db2) \<subseteq> insert (Key r, pos) (set (index db))"
    using BTree_Put_set [of "index db" "Key r" pos] BTree_Delete_set [of "index db" "Key r"]
    by (auto simp: db1_def db2_def LogRecordNormal_def LogRecordDeleted_def)
  then have en: "\<forall>e \<in> set (index (addReclaim db2 old)). handleOf (addReclaim db2 old) (Fid (snd e)) \<noteq> None"
    using Cons.prems(2,3) pin by (auto simp: hc)
  have ps: "\<forall>e \<in> set positions. handleOf (addReclaim db2 old) (Fid (snd e)) \<noteq> None"
    using Cons.prems(2) by (simp add: hc)
  from Cons.IH [OF rest ps en] fr show ?case by simp
qed

lemma Commit_handles:
  assumes "Commit wb db dir = Inr (wb', db', dir')" and "handlesInv db dir"
  shows "handlesInv db' dir'"
proof (cases "length (pendingWrites wb) = 0")
  case True
  with assms show ?thesis by (simp add: Commit_def)
next
  case False
  define seq where "seq = (seqNo db + 1) mod 2 ^ 64"
  let ?fin = "\<lparr>Key = logRecordKeyWithSeq txnFinKey seq, Value = [], Type = LogRecordTxnFinished\<rparr>"
  from assms(1) False obtain positions db1 dir1 p db2 where
    ca: "commitAppend (pendingWrites wb) seq (db\<lparr>seqNo := seq\<rparr>) dir [] = Inr (positions, db1, dir1)"
    and ap: "appendLogRecord db1 dir1 ?fin = Inr (p, db2, dir')"
    and ci: "commitIndex (pendingWrites wb) positions db2 = Inr db'"
    by (auto simp: Commit_def Let_def seq_def split: if_splits sum.splits prod.splits)
  from assms(2) have h: "handlesOK db dir"
    and en: "\<forall>e \<in> set (index db). handleOf db (Fid (snd e)) \<noteq> None"
    by (simp_all add: handlesInv_def)
  have "handlesOK (db\<lparr>seqNo := seq\<rparr>) dir = handlesOK db dir" by (rule handlesOK_cong) simp_all
  with h have h0: "handlesOK (db\<lparr>seqNo := seq\<rparr>) dir" by simp
  have hc0: "handleOf (db\<lparr>seqNo := seq\<rparr>) = handleOf db" by (rule handleOf_cong) simp_all
  from commitAppend_handles [OF ca h0] have
    h1: "handlesOK db1 dir1" and i1: "index db1 = index db"
    and p1: "\<forall>e \<in> set positions. handleOf db1 (Fid (snd e)) \<noteq> None"
    and m1: "\<forall>fid. handleOf db fid \<noteq> None \<longrightarrow> handleOf db1 fid \<noteq> None"
    by (simp_all add: hc0)
  note a = appendLogRecord_handles [OF ap h1]
  have p2: "\<forall>e \<in> set positions. handleOf db2 (Fid (snd e)) \<noteq> None" using p1 a(4) by blast
  have e2: "\<forall>e \<in> set (index db2). handleOf db2 (Fid (snd e)) \<noteq> None"
    using en m1 a(4) by (auto simp: a(2) i1)
  from commitIndex_handles [OF ci p2 e2] have
    f: "activeFile db' = activeFile db2" "olderFiles db' = olderFiles db2"
    and e3: "\<forall>e \<in> set (index db'). handleOf db' (Fid (snd e)) \<noteq> None" by simp_all
  have "handlesOK db' dir' = handlesOK db2 dir'" using f by (rule handlesOK_cong)
  with a(1) e3 show ?thesis by (simp add: handlesInv_def)
qed

lemma Merge_result:
  assumes "Merge db dir md False False = Inr (db', dir', md')"
  shows "(activeFile db = None \<and> db' = db \<and> dir' = dir \<and> md' = md)
         \<or> (\<exists>af. activeFile db = Some af
               \<and> db' = fst (setActiveDataFile (db\<lparr>olderFiles := putOlder (olderFiles db) (FileID af) af\<rparr>) dir)
               \<and> dir' = snd (setActiveDataFile (db\<lparr>olderFiles := putOlder (olderFiles db) (FileID af) af\<rparr>) dir))"
proof (cases "activeFile db")
  case None
  with assms show ?thesis by (simp add: Merge_def)
next
  case (Some af)
  with assms show ?thesis
    by (auto simp: Merge_def Let_def split: if_splits prod.splits option.splits sum.splits)
qed

lemma Merge_handles:
  assumes "Merge db dir md False False = Inr (db', dir', md')" and "handlesInv db dir"
  shows "handlesInv db' dir'"
    and "index db' = index db"
    and "\<And>fid. handleOf db fid \<noteq> None \<Longrightarrow> handleOf db' fid \<noteq> None"
    and "\<And>fid. fileBytes dir fid \<noteq> None \<Longrightarrow> fileBytes dir' fid = fileBytes dir fid"
    and "activeFile db = None \<longleftrightarrow> activeFile db' = None"
proof -
  from assms(2) have h: "handlesOK db dir"
    and en: "\<forall>e \<in> set (index db). handleOf db (Fid (snd e)) \<noteq> None"
    by (simp_all add: handlesInv_def)
  from Merge_result [OF assms(1)]
  have "handlesInv db' dir' \<and> index db' = index db
        \<and> (\<forall>fid. handleOf db fid \<noteq> None \<longrightarrow> handleOf db' fid \<noteq> None)
        \<and> (\<forall>fid. fileBytes dir fid \<noteq> None \<longrightarrow> fileBytes dir' fid = fileBytes dir fid)
        \<and> (activeFile db = None \<longleftrightarrow> activeFile db' = None)"
  proof (elim disjE conjE exE)
    assume "activeFile db = None" "db' = db" "dir' = dir" "md' = md"
    with assms(2) show ?thesis by simp
  next
    fix af
    assume a: "activeFile db = Some af"
      and d: "db' = fst (setActiveDataFile (db\<lparr>olderFiles := putOlder (olderFiles db) (FileID af) af\<rparr>) dir)"
      and e: "dir' = snd (setActiveDataFile (db\<lparr>olderFiles := putOlder (olderFiles db) (FileID af) af\<rparr>) dir)"
    note r = rotate_handles [OF h a, folded d e]
    have "\<forall>e \<in> set (index db'). handleOf db' (Fid (snd e)) \<noteq> None"
      using en r(2) by (simp add: r(7))
    with r a show ?thesis by (simp add: handlesInv_def)
  qed
  then show "handlesInv db' dir'"
    and "index db' = index db"
    and "\<And>fid. handleOf db fid \<noteq> None \<Longrightarrow> handleOf db' fid \<noteq> None"
    and "\<And>fid. fileBytes dir fid \<noteq> None \<Longrightarrow> fileBytes dir' fid = fileBytes dir fid"
    and "activeFile db = None \<longleftrightarrow> activeFile db' = None"
    by simp_all
qed

lemma step_handles:
  assumes "step (db, dir, md) operation = Inr (db', dir', md')" and "handlesInv db dir"
  shows "handlesInv db' dir'"
proof (cases operation)
  case (OpPut key val)
  with assms show ?thesis by (auto split: sum.splits dest: Put_handles)
next
  case (OpDelete key)
  with assms show ?thesis by (auto split: sum.splits dest: Delete_handles)
next
  case (OpCommit wb)
  with assms show ?thesis by (auto split: sum.splits dest: Commit_handles)
next
  case OpMerge
  with assms show ?thesis by (auto dest: Merge_handles(1))
qed

lemma run_handles:
  "run ops (db, dir, md) = Inr (db', dir', md') \<Longrightarrow> handlesInv db dir \<Longrightarrow> handlesInv db' dir'"
proof (induction ops arbitrary: db dir md)
  case Nil
  then show ?case by simp
next
  case (Cons operation rest)
  from Cons.prems(1) obtain db1 dir1 md1 where
    s: "step (db, dir, md) operation = Inr (db1, dir1, md1)"
    and r: "run rest (db1, dir1, md1) = Inr (db', dir', md')"
    by (auto split: sum.splits)
  from Cons.IH [OF r step_handles [OF s Cons.prems(2)]] show ?case .
qed

lemma Open_emptyDirectory:
  assumes "Open opts emptyDirectory None = Inr (db, dir)"
  shows "db = \<lparr>options = opts, fileIDs = [], activeFile = None, olderFiles = [],
               index = [], seqNo = 0, isMerging = False, bytesWrite = 0, reclaimSize = 0\<rparr>"
    and "dir = emptyDirectory"
  using assms
  by (auto simp: Open_def loadMergeFiles_def loadDataFiles_def loadIndexFromHintFile_def
        loadIndexFromDataFiles_def emptyDirectory_def NewBTree_def nonTransactionSeqNo_def
        split: if_splits)

lemma Open_emptyDirectory_handles:
  assumes "Open opts emptyDirectory None = Inr (db, dir)"
  shows "handlesInv db dir"
  using Open_emptyDirectory [OF assms]
  by (simp add: handlesInv_def handlesOK_def handleOf_def)

lemma read_by_id:
  assumes "handlesOK db dir" and "handleOf db fid = Some df"
  shows "DataFile_ReadLogRecord dir df offset
         = (case fileBytes dir fid of None \<Rightarrow> Inl IOError | Some content \<Rightarrow> ReadLogRecord content offset)"
proof -
  from assms have "FileID df = fid" unfolding handlesOK_def by blast
  then show ?thesis by (simp add: DataFile_ReadLogRecord_def)
qed

lemma Merge_getValueByPosition:
  assumes m: "Merge db dir md False False = Inr (db', dir', md')"
    and h: "handlesInv db dir" and p: "handleOf db (Fid pos) \<noteq> None"
  shows "getValueByPosition db' dir' pos = getValueByPosition db dir pos"
proof -
  note mh = Merge_handles [OF m h]
  from h have ok: "handlesOK db dir" by (simp add: handlesInv_def)
  from mh(1) have ok': "handlesOK db' dir'" by (simp add: handlesInv_def)
  from p obtain df where df: "handleOf db (Fid pos) = Some df" by auto
  from mh(3) [OF p] obtain df' where df': "handleOf db' (Fid pos) = Some df'" by auto
  from p obtain af where af: "activeFile db = Some af"
    by (cases "activeFile db") (simp_all add: handleOf_def)
  with mh(5) obtain af' where af': "activeFile db' = Some af'" by auto
  from ok df have ex: "fileBytes dir (Fid pos) \<noteq> None" unfolding handlesOK_def by blast
  have "DataFile_ReadLogRecord dir' df' (Offset pos) = DataFile_ReadLogRecord dir df (Offset pos)"
    by (simp add: read_by_id [OF ok df] read_by_id [OF ok' df'] mh(4) [OF ex])
  then show ?thesis
    by (simp add: getValueByPosition_handleOf af af' df df')
qed

lemma Merge_Get:
  assumes m: "Merge db dir md False False = Inr (db', dir', md')" and h: "handlesInv db dir"
  shows "Get db' dir' key = Get db dir key"
proof (cases "BTree_Get (index db) key")
  case None
  then show ?thesis by (simp add: Get_def Merge_handles(2) [OF m h])
next
  case (Some pos)
  then have "(key, pos) \<in> set (index db)" by (auto simp: BTree_Get_def dest: map_of_SomeD)
  with h have "handleOf db (Fid pos) \<noteq> None" by (auto simp: handlesInv_def)
  from Merge_getValueByPosition [OF m h this] Some show ?thesis
    by (simp add: Get_def Merge_handles(2) [OF m h])
qed

lemma merges_keep:
  "run (replicate n OpMerge) (db, dir, md) = Inr (db', dir', md') \<Longrightarrow> handlesInv db dir \<Longrightarrow>
   index db' = index db \<and> (\<forall>key. Get db' dir' key = Get db dir key)"
proof (induction n arbitrary: db dir md)
  case 0
  then show ?case by simp
next
  case (Suc n)
  from Suc.prems(1) obtain db1 dir1 md1 where
    m: "Merge db dir md False False = Inr (db1, dir1, md1)"
    and r: "run (replicate n OpMerge) (db1, dir1, md1) = Inr (db', dir', md')"
    by (auto split: sum.splits)
  from Suc.IH [OF r Merge_handles(1) [OF m Suc.prems(2)]]
    Merge_Get [OF m Suc.prems(2)] Merge_handles(2) [OF m Suc.prems(2)]
  show ?case by simp
qed


section \<open>Merges and the observable state\<close>

text \<open>
  C8. In every state that a run from \<open>Open\<close> on an empty directory reaches, any number of
  merges in succession that return without an error leave the list of keys and the result
  of \<open>Get\<close> for every key as they were; so two merges give what one merge gives. A merge
  rotates the active file and writes the merge directory; it changes neither the key
  directory nor a byte of an existing data file.
\<close>

theorem merge_keeps_observable_state:
  assumes "Open opts emptyDirectory None = Inr (db0, dir0)"
    and "run ops (db0, dir0, None) = Inr (db, dir, md)"
    and "run (replicate n OpMerge) (db, dir, md) = Inr (db', dir', md')"
  shows "ListKeys db' = ListKeys db \<and> (\<forall>key. Get db' dir' key = Get db dir key)"
proof -
  have "handlesInv db dir"
    by (rule run_handles [OF assms(2) Open_emptyDirectory_handles [OF assms(1)]])
  from merges_keep [OF assms(3) this] show ?thesis by (simp add: ListKeys_def)
qed

theorem merge_keeps_observable_state_witness:
  "\<exists>db0 dir0 db dir md db' dir' md'.
     Open \<lparr>DataFileSize = 64, SyncWrites = False, BytesPerSync = 0\<rparr> emptyDirectory None = Inr (db0, dir0)
     \<and> run [OpPut [107] [118]] (db0, dir0, None) = Inr (db, dir, md)
     \<and> run (replicate 2 OpMerge) (db, dir, md) = Inr (db', dir', md')
     \<and> activeFile db = Some \<lparr>FileID = 0, WriteOffset = 10\<rparr>
     \<and> activeFile db' = Some \<lparr>FileID = 2, WriteOffset = 0\<rparr>
     \<and> ListKeys db' = ListKeys db \<and> (\<forall>key. Get db' dir' key = Get db dir key)"
proof -
  let ?opts = "\<lparr>DataFileSize = 64, SyncWrites = False, BytesPerSync = 0\<rparr>"
  let ?init = "\<lparr>options = ?opts, fileIDs = [], activeFile = None, olderFiles = [], index = [],
               seqNo = 0, isMerging = False, bytesWrite = 0, reclaimSize = 0\<rparr>"
  let ?f = "[141, 169, 36, 209, 0, 4, 2, 0, 107, 118] :: bytes"
  let ?db = "\<lparr>options = ?opts, fileIDs = [], activeFile = Some \<lparr>FileID = 0, WriteOffset = 10\<rparr>,
              olderFiles = [], index = [([107], \<lparr>Fid = 0, Offset = 0, Size = 10\<rparr>)],
              seqNo = 0, isMerging = False, bytesWrite = 10, reclaimSize = 0\<rparr>"
  let ?dir = "\<lparr>dataFiles = [(0, ?f)], hintFile = None, mergeFinishedFile = None, seqNoFile = None\<rparr>"
  let ?db' = "\<lparr>options = ?opts, fileIDs = [], activeFile = Some \<lparr>FileID = 2, WriteOffset = 0\<rparr>,
               olderFiles = [(1, \<lparr>FileID = 1, WriteOffset = 0\<rparr>), (0, \<lparr>FileID = 0, WriteOffset = 10\<rparr>)],
               index = [([107], \<lparr>Fid = 0, Offset = 0, Size = 10\<rparr>)],
               seqNo = 0, isMerging = False, bytesWrite = 10, reclaimSize = 0\<rparr>"
  let ?dir' = "\<lparr>dataFiles = [(0, ?f), (1, []), (2, [])],
                hintFile = None, mergeFinishedFile = None, seqNoFile = None\<rparr>"
  let ?md' = "Some \<lparr>dataFiles = [(0, ?f)],
                hintFile = Some [170, 47, 25, 169, 0, 2, 6, 107, 0, 0, 20],
                mergeFinishedFile = Some [119, 17, 220, 241, 0, 28, 2, 109, 101, 114, 103, 101, 46, 102,
                                          105, 110, 105, 115, 104, 101, 100, 50],
                seqNoFile = None\<rparr>"
  note ev = Open_def checkOptions_def loadMergeFiles_def loadDataFiles_def
        loadIndexFromHintFile_def loadIndexFromDataFiles_def NewBTree_def
        replayRecord_def parseLogRecordKey_def updateIndex_def scanFile.simps
        Put_def appendLogRecord_def setActiveDataFile_def OpenDataFile_def
        DataFile_Write_def fileBytes_def setFileBytes_def putOlder_def
        BTree_Put_def BTree_Get_def addReclaim_def logRecordKeyWithSeq_def nonTransactionSeqNo_def
        LogRecordNormal_def emptyDirectory_def Merge_def mergeFile.simps WriteHintRecord_def
        EncodeLogRecordPos_def mergeFinishedKey_def Itoa.simps Let_def
        read_eval encode_eval
  have o: "Open ?opts emptyDirectory None = Inr (?init, emptyDirectory)"
    by (simp add: ev)
  have r1: "run [OpPut [107] [118]] (?init, emptyDirectory, None) = Inr (?db, ?dir, None)"
    by (simp add: ev)
  have two: "replicate 2 OpMerge = [OpMerge, OpMerge]" by (simp add: numeral_2_eq_2)
  have "run [OpMerge, OpMerge] (?db, ?dir, None) = Inr (?db', ?dir', ?md')"
    by (simp add: ev)
  then have r2: "run (replicate 2 OpMerge) (?db, ?dir, None) = Inr (?db', ?dir', ?md')"
    by (simp only: two)
  have a: "activeFile ?db = Some \<lparr>FileID = 0, WriteOffset = 10\<rparr>"
    and a': "activeFile ?db' = Some \<lparr>FileID = 2, WriteOffset = 0\<rparr>" by simp_all
  from merge_keeps_observable_state [OF o r1 r2] o r1 r2 a a' show ?thesis by blast
qed

end
